theory Spec2Isabelle
  imports Complex_Main
begin

section \<open>Log-probabilities\<close>

text \<open>
  The search adds and compares floating point log-probabilities, and uses the
  value \<open>float("-inf")\<close> for tokens that must never be chosen. The model takes
  the reals extended by minus infinity: rounding, plus infinity and NaN are
  outside it.
\<close>

datatype logprob = NegInf | Fin real

fun lp_add :: "logprob \<Rightarrow> logprob \<Rightarrow> logprob" where
  "lp_add (Fin x) (Fin y) = Fin (x + y)"
| "lp_add _ _ = NegInf"

fun lp_less :: "logprob \<Rightarrow> logprob \<Rightarrow> bool" where
  "lp_less NegInf (Fin y) = True"
| "lp_less (Fin x) (Fin y) = (x < y)"
| "lp_less _ NegInf = False"

section \<open>The selection primitive \<open>topk\<close>\<close>

text \<open>
  \<open>torch.topk\<close> returns the \<open>k\<close> largest entries of a row in descending order
  together with their positions; which of several equal entries it prefers is
  not fixed by the library. The search is therefore parametrised by a selector
  returning the chosen positions, and \<open>topk_spec\<close> says what every admissible
  selector does.
\<close>

type_synonym selector = "logprob list \<Rightarrow> nat \<Rightarrow> nat list"

definition topk_spec :: "selector \<Rightarrow> bool" where
  "topk_spec tk \<longleftrightarrow>
     (\<forall>xs k. k \<le> length xs \<longrightarrow>
        length (tk xs k) = k \<and>
        distinct (tk xs k) \<and>
        (\<forall>i \<in> set (tk xs k). i < length xs) \<and>
        sorted_wrt (\<lambda>i j. \<not> lp_less (xs ! i) (xs ! j)) (tk xs k) \<and>
        (\<forall>i < length xs. i \<notin> set (tk xs k) \<longrightarrow>
           (\<forall>j \<in> set (tk xs k). \<not> lp_less (xs ! j) (xs ! i))))"

text \<open>
  One admissible selector: insertion sort of the positions by descending value,
  the lower position first among equal values.
\<close>

fun insert_desc :: "logprob list \<Rightarrow> nat \<Rightarrow> nat list \<Rightarrow> nat list" where
  "insert_desc xs i [] = [i]"
| "insert_desc xs i (j # js) =
     (if lp_less (xs ! i) (xs ! j) then j # insert_desc xs i js else i # j # js)"

definition argsort_desc :: "logprob list \<Rightarrow> nat list" where
  "argsort_desc xs = foldr (insert_desc xs) [0..<length xs] []"

definition topk :: selector where
  "topk xs k = take k (argsort_desc xs)"

section \<open>Tensors\<close>

text \<open>
  The exceptions \<open>search\<close> can end with: \<open>ConfigurationError\<close> is its own,
  \<open>RuntimeError\<close> is what the tensor library raises on a shape or range
  violation, \<open>IndexError\<close> is an index outside a Python list or a tensor
  dimension.
\<close>

datatype error = ConfigurationError | RuntimeError | IndexError

text \<open>
  A scoring function returns a two-dimensional tensor of log-probabilities. Its
  second dimension is kept beside the rows, since \<open>size()[1]\<close> is defined for
  a tensor without rows too. Integer tensors of shape \<open>(batch_size, beam_size)\<close>
  are lists of rows.
\<close>

datatype scores = Scores (num_cols: nat) (rows: "logprob list list")

definition has_shape :: "scores \<Rightarrow> nat \<Rightarrow> nat \<Rightarrow> bool" where
  "has_shape t r c \<longleftrightarrow>
     length (rows t) = r \<and> num_cols t = c \<and> list_all (\<lambda>row. length row = c) (rows t)"

definition pick :: "'a list list \<Rightarrow> nat list list \<Rightarrow> 'a list list" where
  "pick input index = map (\<lambda>(row, is). map (\<lambda>j. row ! j) is) (zip input index)"

text \<open>
  \<open>t.topk(k)\<close> along the last dimension, of size \<open>c\<close>: the values and their
  positions, or a \<open>RuntimeError\<close> when \<open>k\<close> is out of range.
\<close>

definition tensor_topk ::
  "selector \<Rightarrow> int \<Rightarrow> nat \<Rightarrow> logprob list list
     \<Rightarrow> error + (logprob list list \<times> nat list list)" where
  "tensor_topk tk k c m =
     (if k < 0 \<or> int c < k \<or> \<not> list_all (\<lambda>row. length row = c) m then Inl RuntimeError
      else let index = map (\<lambda>row. tk row (nat k)) m in Inr (pick m index, index))"

text \<open>\<open>input.gather(1, index)\<close>: every position must lie inside its row.\<close>

definition gather :: "'a list list \<Rightarrow> nat list list \<Rightarrow> error + 'a list list" where
  "gather input index =
     (if length index \<le> length input \<and>
         list_all (\<lambda>(row, is). list_all (\<lambda>j. j < length row) is) (zip input index)
      then Inr (pick input index) else Inl RuntimeError)"

text \<open>\<open>reshape(r, c)\<close> of a flat sequence of \<open>r * c\<close> entries, in row-major order.\<close>

definition reshape2 :: "nat \<Rightarrow> nat \<Rightarrow> 'a list \<Rightarrow> 'a list list" where
  "reshape2 r c xs = map (\<lambda>i. take c (drop (i * c) xs)) [0..<r]"

text \<open>
  \<open>torch.cat(ms, 2)\<close> of tensors of shape \<open>(batch_size, beam_size, 1)\<close>, each
  given without its last dimension: entry \<open>[b][k]\<close> of the result lists entry
  \<open>[b][k]\<close> of every tensor in turn.
\<close>

definition cat2 :: "'a list list list \<Rightarrow> error + 'a list list list" where
  "cat2 ms =
     (case ms of
        [] \<Rightarrow> Inl RuntimeError
      | m # _ \<Rightarrow>
          if list_all (\<lambda>m'. map length m' = map length m) ms
          then Inr (map (\<lambda>b. map (\<lambda>k. map (\<lambda>m'. m' ! b ! k) ms) [0..<length (m ! b)])
                      [0..<length m])
          else Inl RuntimeError)"

section \<open>Configuration, decoder state and scoring functions\<close>

record BeamSearch =
  end_index :: int
  max_steps :: int
  beam_size :: int
  per_node_beam_size :: int

text \<open>
  The constructor: \<open>per_node_beam_size or beam_size\<close> takes the beam size when
  the argument is \<open>None\<close> or \<open>0\<close>.
\<close>

definition BeamSearch_init :: "int \<Rightarrow> int \<Rightarrow> int \<Rightarrow> int option \<Rightarrow> BeamSearch" where
  "BeamSearch_init e ms bs pn =
     \<lparr>end_index = e, max_steps = ms, beam_size = bs,
      per_node_beam_size = (case pn of None \<Rightarrow> bs | Some n \<Rightarrow> if n = 0 then bs else n)\<rparr>"

text \<open>
  The decoder state is a Python dictionary from keys to tensors of shape
  \<open>(group_size, *)\<close>. A tensor is the list of its slices along the first
  dimension; what a slice holds is the caller's business (the type \<open>'s\<close>).
  Dictionaries are mutable objects: the store maps the address of a dictionary
  to its items. A scoring function receives the last tokens and the address of
  the state, and returns the scores and the address of the new state; it may
  read and write the store.
\<close>

type_synonym 's state_dict = "(string \<times> 's list) list"

type_synonym 's store = "nat \<Rightarrow> 's state_dict"

type_synonym 's step_function =
  "int list \<Rightarrow> nat \<Rightarrow> 's store \<Rightarrow> (scores \<times> nat) \<times> 's store"

text \<open>
  The calls of the scoring functions are the effects of a search. The trace
  lists them in order: which argument of \<open>search\<close> was called, the tokens it
  was given and the scores it returned.
\<close>

datatype callee = FirstStep | Step

type_synonym call = "callee \<times> int list \<times> scores"

fun map_items :: "('v \<Rightarrow> error + 'v) \<Rightarrow> (string \<times> 'v) list \<Rightarrow> error + (string \<times> 'v) list" where
  "map_items f [] = Inr []"
| "map_items f ((key, v) # kvs) =
     (case f v of
        Inl e \<Rightarrow> Inl e
      | Inr v' \<Rightarrow>
          (case map_items f kvs of
             Inl e \<Rightarrow> Inl e
           | Inr kvs' \<Rightarrow> Inr ((key, v') # kvs')))"

text \<open>
  \<open>state_tensor.unsqueeze(1).expand(batch_size, beam_size, *last_dims)
  .reshape(batch_size * beam_size, *last_dims)\<close>: every slice is repeated
  \<open>beam_size\<close> times; a single slice is broadcast over the batch as well.
\<close>

definition expand_state_tensor :: "nat \<Rightarrow> nat \<Rightarrow> 's list \<Rightarrow> error + 's list" where
  "expand_state_tensor batch_size beam t =
     (if length t = batch_size then Inr (concat (map (replicate beam) t))
      else if length t = 1 then Inr (replicate (batch_size * beam) (hd t))
      else Inl RuntimeError)"

text \<open>
  \<open>state_tensor.reshape(batch_size, beam_size, *last_dims)
  .gather(1, expanded_backpointer).reshape(batch_size * beam_size, *last_dims)\<close>:
  slot \<open>k\<close> of batch element \<open>b\<close> receives the slice of its ancestor.
\<close>

definition select_ancestors :: "nat \<Rightarrow> nat \<Rightarrow> nat list list \<Rightarrow> 's list \<Rightarrow> error + 's list" where
  "select_ancestors batch_size beam backpointer t =
     (if length t = batch_size * beam
      then Inr (concat (map (\<lambda>(b, bp). map (\<lambda>j. t ! (b * beam + j)) bp)
                         (zip [0..<batch_size] backpointer)))
      else Inl RuntimeError)"

section \<open>The search\<close>

record 's loop_state =
  predictions :: "int list list list"
  backpointers :: "nat list list list"
  last_log_probabilities :: "logprob list list"
  state :: nat
  store :: "'s store"
  trace :: "call list"

text \<open>
  \<open>new_full((batch_size * beam_size, num_classes), float("-inf"))\<close> followed by
  \<open>log_probs_after_end[:, end_index] = 0.\<close>; a negative index counts from the
  end of the row.
\<close>

definition log_probs_after_end :: "BeamSearch \<Rightarrow> nat \<Rightarrow> nat \<Rightarrow> error + logprob list list" where
  "log_probs_after_end self n num_classes =
     (let e = end_index self; c = int num_classes in
      if e < - c \<or> c \<le> e then Inl IndexError
      else Inr (replicate n
             ((replicate num_classes NegInf)[nat (if e < 0 then c + e else e) := Fin 0])))"

text \<open>
  The part of \<open>search\<close> before the main loop: the first scoring call, the check
  of \<open>per_node_beam_size\<close>, the first beam, the forced-end distribution and the
  state repeated for every slot of the beam. It returns the vocabulary size,
  the forced-end distribution and the state of the loop.
\<close>

definition initialise ::
  "selector \<Rightarrow> BeamSearch \<Rightarrow> int list \<Rightarrow> nat \<Rightarrow> 's step_function
     \<Rightarrow> 's step_function option \<Rightarrow> 's store
     \<Rightarrow> (error \<times> call list) + (nat \<times> logprob list list \<times> 's loop_state)" where
  "initialise tk self start_predictions start_state step first_step h =
     (let batch_size = length start_predictions;
          (who, f) = (case first_step of None \<Rightarrow> (Step, step) | Some g \<Rightarrow> (FirstStep, g));
          ((start_class_log_probabilities, st), h1) = f start_predictions start_state h;
          tr = [(who, start_predictions, start_class_log_probabilities)];
          num_classes = num_cols start_class_log_probabilities
      in if per_node_beam_size self > int num_classes then Inl (ConfigurationError, tr)
         else
           (case tensor_topk tk (beam_size self) num_classes (rows start_class_log_probabilities) of
              Inl e \<Rightarrow> Inl (e, tr)
            | Inr (start_top_log_probabilities, start_predicted_classes) \<Rightarrow>
                (case log_probs_after_end self (batch_size * nat (beam_size self)) num_classes of
                   Inl e \<Rightarrow> Inl (e, tr)
                 | Inr after_end \<Rightarrow>
                     (case map_items (expand_state_tensor batch_size (nat (beam_size self))) (h1 st) of
                        Inl e \<Rightarrow> Inl (e, tr)
                      | Inr d \<Rightarrow>
                          Inr (num_classes, after_end,
                               \<lparr>predictions = [map (map int) start_predicted_classes],
                                backpointers = [],
                                last_log_probabilities = start_top_log_probabilities,
                                state = st,
                                store = h1(st := d),
                                trace = tr\<rparr>)))))"

text \<open>
  \<open>torch.where(last_predictions_expanded == end_index, log_probs_after_end,
  class_log_probabilities)\<close>: the condition is the same along a row, so a row
  is replaced as a whole.
\<close>

definition cleaned_log_probabilities ::
  "BeamSearch \<Rightarrow> logprob list list \<Rightarrow> int list \<Rightarrow> logprob list list \<Rightarrow> logprob list list" where
  "cleaned_log_probabilities self after_end last_predictions class_log_probabilities =
     map (\<lambda>(tok, forced, given). if tok = end_index self then forced else given)
       (zip last_predictions (zip after_end class_log_probabilities))"

definition summed_top_log_probabilities ::
  "logprob list list \<Rightarrow> logprob list list \<Rightarrow> logprob list list" where
  "summed_top_log_probabilities top_log_probabilities last_lp =
     map (\<lambda>(vals, l). map (\<lambda>v. lp_add v l) vals) (zip top_log_probabilities (concat last_lp))"

text \<open>
  The first half of a pass of the loop body after the scoring call, on tensors
  alone: from the scores to the grid of \<open>beam_size * per_node_beam_size\<close>
  candidates of every batch element, their summed log-probabilities and their
  tokens. The model accepts scores of the shape the contract of the scoring
  function names, \<open>(batch_size * beam_size, num_classes)\<close>, and raises for every
  other shape (some of which the library would broadcast).
\<close>

definition candidates ::
  "selector \<Rightarrow> BeamSearch \<Rightarrow> nat \<Rightarrow> nat \<Rightarrow> logprob list list \<Rightarrow> int list
     \<Rightarrow> logprob list list \<Rightarrow> scores
     \<Rightarrow> error + (logprob list list \<times> int list list)" where
  "candidates tk self batch_size num_classes after_end last_predictions last_lp class_log_probabilities =
     (let beam = nat (beam_size self); per_node = nat (per_node_beam_size self) in
      if \<not> has_shape class_log_probabilities (batch_size * beam) num_classes
      then Inl RuntimeError
      else
        (case tensor_topk tk (per_node_beam_size self) num_classes
                (cleaned_log_probabilities self after_end last_predictions
                   (rows class_log_probabilities)) of
           Inl e \<Rightarrow> Inl e
         | Inr (top_log_probabilities, predicted_classes) \<Rightarrow>
             if \<not> (length last_lp = batch_size \<and> list_all (\<lambda>row. length row = beam) last_lp)
             then Inl RuntimeError
             else
               Inr (reshape2 batch_size (beam * per_node)
                      (concat (summed_top_log_probabilities top_log_probabilities last_lp)),
                    reshape2 batch_size (beam * per_node)
                      (concat (map (map int) predicted_classes)))))"

text \<open>
  The second half: keep the top \<open>beam_size\<close> candidates of every batch element,
  with their tokens; the backpointer of a kept candidate is its position in
  the grid divided by \<open>per_node_beam_size\<close> (an integer division, the tensor
  being a \<open>LongTensor\<close>).
\<close>

definition prune ::
  "selector \<Rightarrow> BeamSearch \<Rightarrow> logprob list list \<Rightarrow> int list list
     \<Rightarrow> error + (int list list \<times> logprob list list \<times> nat list list)" where
  "prune tk self reshaped_summed reshaped_predicted_classes =
     (case tensor_topk tk (beam_size self)
             (nat (beam_size self) * nat (per_node_beam_size self)) reshaped_summed of
        Inl e \<Rightarrow> Inl e
      | Inr (restricted_beam_log_probs, restricted_beam_indices) \<Rightarrow>
          (case gather reshaped_predicted_classes restricted_beam_indices of
             Inl e \<Rightarrow> Inl e
           | Inr restricted_predicted_classes \<Rightarrow>
               Inr (restricted_predicted_classes, restricted_beam_log_probs,
                    map (map (\<lambda>i. i div nat (per_node_beam_size self)))
                      restricted_beam_indices)))"

definition advance ::
  "selector \<Rightarrow> BeamSearch \<Rightarrow> nat \<Rightarrow> nat \<Rightarrow> logprob list list \<Rightarrow> int list
     \<Rightarrow> logprob list list \<Rightarrow> scores
     \<Rightarrow> error + (int list list \<times> logprob list list \<times> nat list list)" where
  "advance tk self batch_size num_classes after_end last_predictions last_lp class_log_probabilities =
     (case candidates tk self batch_size num_classes after_end last_predictions last_lp
             class_log_probabilities of
        Inl e \<Rightarrow> Inl e
      | Inr (reshaped_summed, reshaped_predicted_classes) \<Rightarrow>
          prune tk self reshaped_summed reshaped_predicted_classes)"

text \<open>
  The loop body from the scoring call on: call \<open>step\<close>, advance the beam, append
  the predictions and the backpointers, and keep for every slot the state of
  its ancestor, written into the dictionary that \<open>step\<close> returned.
\<close>

definition loop_body ::
  "selector \<Rightarrow> BeamSearch \<Rightarrow> nat \<Rightarrow> nat \<Rightarrow> logprob list list \<Rightarrow> 's step_function
     \<Rightarrow> 's loop_state \<Rightarrow> int list \<Rightarrow> (error \<times> call list) + 's loop_state" where
  "loop_body tk self batch_size num_classes after_end step ls last_predictions =
     (let ((class_log_probabilities, st), h1) = step last_predictions (state ls) (store ls);
          tr = trace ls @ [(Step, last_predictions, class_log_probabilities)]
      in case advance tk self batch_size num_classes after_end last_predictions
                (last_log_probabilities ls) class_log_probabilities of
           Inl e \<Rightarrow> Inl (e, tr)
         | Inr (restricted_predicted_classes, restricted_beam_log_probs, backpointer) \<Rightarrow>
             (case map_items (select_ancestors batch_size (nat (beam_size self)) backpointer) (h1 st) of
                Inl e \<Rightarrow> Inl (e, tr)
              | Inr d \<Rightarrow>
                  Inr \<lparr>predictions = predictions ls @ [restricted_predicted_classes],
                       backpointers = backpointers ls @ [backpointer],
                       last_log_probabilities = restricted_beam_log_probs,
                       state = st,
                       store = h1(st := d),
                       trace = tr\<rparr>))"

text \<open>\<open>predictions[-1].reshape(batch_size * beam_size)\<close>.\<close>

definition last_predictions_of :: "nat \<Rightarrow> nat \<Rightarrow> int list list list \<Rightarrow> error + int list" where
  "last_predictions_of batch_size beam preds =
     (if preds = [] then Inl IndexError
      else if length (concat (last preds)) = batch_size * beam then Inr (concat (last preds))
      else Inl RuntimeError)"

text \<open>
  The main loop, \<open>for timestep in range(max_steps - 1)\<close>, by the number of
  passes left; it ends early when every last token is the end token.
\<close>

fun run_loop ::
  "selector \<Rightarrow> BeamSearch \<Rightarrow> nat \<Rightarrow> nat \<Rightarrow> logprob list list \<Rightarrow> 's step_function
     \<Rightarrow> nat \<Rightarrow> 's loop_state \<Rightarrow> (error \<times> call list) + 's loop_state" where
  "run_loop tk self batch_size num_classes after_end step 0 ls = Inr ls"
| "run_loop tk self batch_size num_classes after_end step (Suc n) ls =
     (case last_predictions_of batch_size (nat (beam_size self)) (predictions ls) of
        Inl e \<Rightarrow> Inl (e, trace ls)
      | Inr last_predictions \<Rightarrow>
          if list_all (\<lambda>tok. tok = end_index self) last_predictions then Inr ls
          else
            (case loop_body tk self batch_size num_classes after_end step ls last_predictions of
               Inl e \<Rightarrow> Inl e
             | Inr ls' \<Rightarrow> run_loop tk self batch_size num_classes after_end step n ls'))"

text \<open>
  The backward pass \<open>for timestep in range(len(predictions) - 2, 0, -1)\<close>, by
  the value of \<open>timestep\<close>: it appends the predictions of the ancestors at
  \<open>timestep\<close> and moves the ancestors one step back.
\<close>

fun walk_back ::
  "int list list list \<Rightarrow> nat list list list \<Rightarrow> nat \<Rightarrow> int list list list \<Rightarrow> nat list list
     \<Rightarrow> error + (int list list list \<times> nat list list)" where
  "walk_back preds bps 0 reconstructed cur = Inr (reconstructed, cur)"
| "walk_back preds bps (Suc n) reconstructed cur =
     (if length preds \<le> Suc n \<or> length bps \<le> n then Inl IndexError
      else
        (case gather (preds ! Suc n) cur of
           Inl e \<Rightarrow> Inl e
         | Inr cur_preds \<Rightarrow>
             (case gather (bps ! n) cur of
                Inl e \<Rightarrow> Inl e
              | Inr cur' \<Rightarrow> walk_back preds bps n (reconstructed @ [cur_preds]) cur')))"

text \<open>
  The reconstruction of the sequences. \<open>backpointers[-1]\<close> raises when no
  backpointer was recorded.
\<close>

definition reconstruct ::
  "int list list list \<Rightarrow> nat list list list \<Rightarrow> error + int list list list" where
  "reconstruct preds bps =
     (if preds = [] \<or> bps = [] then Inl IndexError
      else
        (case walk_back preds bps (length preds - 2) [last preds] (last bps) of
           Inl e \<Rightarrow> Inl e
         | Inr (reconstructed, cur) \<Rightarrow>
             (case gather (preds ! 0) cur of
                Inl e \<Rightarrow> Inl e
              | Inr final_preds \<Rightarrow> cat2 (rev (reconstructed @ [final_preds])))))"

text \<open>
  \<open>BeamSearch.search\<close>. A run that returns gives the predictions and their
  log-probabilities, and leaves the object \<open>self\<close>, a store and a trace; a run
  that raises gives the exception and the trace up to it. No statement of the
  method assigns a field of \<open>self\<close>.
\<close>

definition search ::
  "selector \<Rightarrow> BeamSearch \<Rightarrow> int list \<Rightarrow> nat \<Rightarrow> 's step_function
     \<Rightarrow> 's step_function option \<Rightarrow> 's store
     \<Rightarrow> (error \<times> call list)
         + ((int list list list \<times> logprob list list) \<times> BeamSearch \<times> 's store \<times> call list)" where
  "search tk self start_predictions start_state step first_step h =
     (case initialise tk self start_predictions start_state step first_step h of
        Inl e \<Rightarrow> Inl e
      | Inr (num_classes, after_end, ls0) \<Rightarrow>
          (case run_loop tk self (length start_predictions) num_classes after_end step
                  (nat (max_steps self - 1)) ls0 of
             Inl e \<Rightarrow> Inl e
           | Inr ls \<Rightarrow>
               (case reconstruct (predictions ls) (backpointers ls) of
                  Inl e \<Rightarrow> Inl (e, trace ls)
                | Inr all_predictions \<Rightarrow>
                    Inr ((all_predictions, last_log_probabilities ls), self, store ls, trace ls))))"

section \<open>Notions the properties are stated with\<close>

text \<open>
  The log-probabilities a timestep chose from, read off the trace: the scores
  of the first call as they are, the scores of a later call after the
  forced-end replacement.
\<close>

definition step_scores ::
  "BeamSearch \<Rightarrow> logprob list list \<Rightarrow> call list \<Rightarrow> nat \<Rightarrow> logprob list list" where
  "step_scores self after_end tr t =
     (case tr ! t of
        (who, toks, sc) \<Rightarrow>
          if t = 0 then rows sc else cleaned_log_probabilities self after_end toks (rows sc))"

text \<open>
  The cumulative log-probability of the hypothesis in slot \<open>k\<close> of batch element
  \<open>b\<close> at timestep \<open>t\<close>: the log-probability of its token at \<open>t\<close>, in the row of
  its parent, added to the cumulative log-probability of the parent.
\<close>

fun path_logprob ::
  "(nat \<Rightarrow> logprob list list) \<Rightarrow> nat \<Rightarrow> int list list list \<Rightarrow> nat list list list
     \<Rightarrow> nat \<Rightarrow> nat \<Rightarrow> nat \<Rightarrow> logprob" where
  "path_logprob sc beam preds bps 0 b k = sc 0 ! b ! nat (preds ! 0 ! b ! k)"
| "path_logprob sc beam preds bps (Suc t) b k =
     lp_add (sc (Suc t) ! (b * beam + bps ! t ! b ! k) ! nat (preds ! Suc t ! b ! k))
       (path_logprob sc beam preds bps t b (bps ! t ! b ! k))"

text \<open>
  The slot reached from slot \<open>s\<close> of timestep \<open>n\<close> by following \<open>i\<close>
  backpointers; \<open>bps ! t\<close> leads from timestep \<open>t + 1\<close> to timestep \<open>t\<close>.
\<close>

fun ancestor :: "nat list list list \<Rightarrow> nat \<Rightarrow> nat \<Rightarrow> nat \<Rightarrow> nat \<Rightarrow> nat" where
  "ancestor bps b n s 0 = s"
| "ancestor bps b n s (Suc i) = bps ! (n - Suc i) ! b ! ancestor bps b n s i"

text \<open>
  The shape of the state of the loop: one tensor of predictions more than of
  backpointers and one call per tensor of predictions; \<open>beam_size\<close> entries per
  batch element everywhere; tokens inside the vocabulary and backpointers
  inside the beam.
\<close>

definition beam_inv :: "BeamSearch \<Rightarrow> nat \<Rightarrow> 's loop_state \<Rightarrow> bool" where
  "beam_inv self num_classes ls \<longleftrightarrow>
     (let beam = nat (beam_size self); nb = length (last_log_probabilities ls) in
      length (predictions ls) = Suc (length (backpointers ls)) \<and>
      length (trace ls) = length (predictions ls) \<and>
      (\<forall>b<nb. length (last_log_probabilities ls ! b) = beam) \<and>
      (\<forall>t<length (predictions ls).
         length (predictions ls ! t) = nb \<and>
         (\<forall>b<nb. length (predictions ls ! t ! b) = beam \<and>
            (\<forall>k<beam. 0 \<le> predictions ls ! t ! b ! k \<and>
                       predictions ls ! t ! b ! k < int num_classes))) \<and>
      (\<forall>t<length (backpointers ls).
         length (backpointers ls ! t) = nb \<and>
         (\<forall>b<nb. length (backpointers ls ! t ! b) = beam \<and>
            (\<forall>k<beam. backpointers ls ! t ! b ! k < beam))))"

definition lp_inv :: "BeamSearch \<Rightarrow> logprob list list \<Rightarrow> 's loop_state \<Rightarrow> bool" where
  "lp_inv self after_end ls \<longleftrightarrow>
     (\<forall>b<length (last_log_probabilities ls). \<forall>k<nat (beam_size self).
        last_log_probabilities ls ! b ! k =
        path_logprob (step_scores self after_end (trace ls)) (nat (beam_size self))
          (predictions ls) (backpointers ls) (length (predictions ls) - 1) b k)"

text \<open>
  A scoring function leaves the dictionary at address \<open>a\<close> alone when, called
  with another dictionary as its state, it neither writes that dictionary nor
  returns it as the new state.
\<close>

definition leaves_alone :: "nat \<Rightarrow> 's step_function \<Rightarrow> bool" where
  "leaves_alone a f \<longleftrightarrow>
     (\<forall>toks st h. st \<noteq> a \<longrightarrow> snd (fst (f toks st h)) \<noteq> a \<and> snd (f toks st h) a = h a)"

text \<open>
  A scoring function is deterministic when the scores it returns and the items
  of the state it returns depend on nothing but the tokens and the items of
  the state it was given: not on where the dictionaries are, and not on the
  rest of the store.
\<close>

definition deterministic :: "'s step_function \<Rightarrow> bool" where
  "deterministic f \<longleftrightarrow>
     (\<forall>toks a h a' h'. h a = h' a' \<longrightarrow>
        fst (fst (f toks a h)) = fst (fst (f toks a' h')) \<and>
        snd (f toks a h) (snd (fst (f toks a h))) = snd (f toks a' h') (snd (fst (f toks a' h'))))"

text \<open>Two states of the loop that differ at most in where and in which store the state is.\<close>

definition same_view :: "'s loop_state \<Rightarrow> 's loop_state \<Rightarrow> bool" where
  "same_view l l' \<longleftrightarrow>
     predictions l = predictions l' \<and> backpointers l = backpointers l' \<and>
     last_log_probabilities l = last_log_probabilities l' \<and> trace l = trace l' \<and>
     store l (state l) = store l' (state l')"

text \<open>What the caller of \<open>search\<close> observes of its result: the value or the exception.\<close>

definition result_of ::
  "(error \<times> call list)
     + ((int list list list \<times> logprob list list) \<times> BeamSearch \<times> 's store \<times> call list)
   \<Rightarrow> error + (int list list list \<times> logprob list list)" where
  "result_of r = (case r of Inl (e, tr) \<Rightarrow> Inl e | Inr (res, self', hf, tr) \<Rightarrow> Inr res)"

section \<open>A small search, for the examples\<close>

text \<open>
  One batch element, a beam of two, three tokens of which token \<open>0\<close> ends a
  sequence, and a scoring function that always prefers the lower token. It
  updates the state in place: it returns the dictionary it was given.
\<close>

definition ex_self :: BeamSearch where
  "ex_self = BeamSearch_init 0 3 2 None"

definition ex_scores :: "nat \<Rightarrow> scores" where
  "ex_scores n = Scores 3 (replicate n [Fin (- 1), Fin (- 2), Fin (- 3)])"

definition ex_step :: "nat step_function" where
  "ex_step toks a h = ((ex_scores (length toks), a), h)"

definition ex_store :: "nat store" where
  "ex_store = (\<lambda>a. [(''h'', [5])])"

definition ex_after_end :: "logprob list list" where
  "ex_after_end = [[Fin 0, NegInf, NegInf], [Fin 0, NegInf, NegInf]]"

definition ex_ls0 :: "nat loop_state" where
  "ex_ls0 = \<lparr>predictions = [[[0, 1]]], backpointers = [],
             last_log_probabilities = [[Fin (- 1), Fin (- 2)]],
             state = 0, store = ex_store(0 := [(''h'', [5, 5])]),
             trace = [(Step, [7], ex_scores 1)]\<rparr>"

definition ex_ls1 :: "nat loop_state" where
  "ex_ls1 = \<lparr>predictions = [[[0, 1]], [[0, 0]]], backpointers = [[[0, 1]]],
             last_log_probabilities = [[Fin (- 1), Fin (- 3)]],
             state = 0, store = ex_store(0 := [(''h'', [5, 5])]),
             trace = [(Step, [7], ex_scores 1), (Step, [0, 1], ex_scores 2)]\<rparr>"





text \<open>
  Variants of the configuration: more candidates per node than there are
  tokens, and a beam of one, whose only first token is the end token.
\<close>

definition wide_self :: BeamSearch where
  "wide_self = BeamSearch_init 0 3 2 (Some 4)"

definition one_self :: BeamSearch where
  "one_self = BeamSearch_init 0 3 1 None"

definition one_ls0 :: "nat loop_state" where
  "one_ls0 = \<lparr>predictions = [[[0]]], backpointers = [],
              last_log_probabilities = [[Fin (- 1)]],
              state = 0, store = ex_store(0 := [(''h'', [5])]),
              trace = [(Step, [7], ex_scores 1)]\<rparr>"

text \<open>
  A scoring function with the same scores that returns a new dictionary
  instead, at the address after the one it was given; and a second store, which
  holds the initial state at another address.
\<close>

definition fresh_step :: "nat step_function" where
  "fresh_step toks a h = ((ex_scores (length toks), Suc a), h(Suc a := h a))"

definition fresh_ls0 :: "nat loop_state" where
  "fresh_ls0 = \<lparr>predictions = [[[0, 1]]], backpointers = [],
                last_log_probabilities = [[Fin (- 1), Fin (- 2)]],
                state = Suc 0, store = ex_store(Suc 0 := [(''h'', [5, 5])]),
                trace = [(Step, [7], ex_scores 1)]\<rparr>"

definition fresh_ls1 :: "nat loop_state" where
  "fresh_ls1 = \<lparr>predictions = [[[0, 1]], [[0, 0]]], backpointers = [[[0, 1]]],
                last_log_probabilities = [[Fin (- 1), Fin (- 3)]],
                state = Suc (Suc 0),
                store = ex_store(Suc 0 := [(''h'', [5, 5])], Suc (Suc 0) := [(''h'', [5, 5])]),
                trace = [(Step, [7], ex_scores 1), (Step, [0, 1], ex_scores 2)]\<rparr>"

definition other_store :: "nat store" where
  "other_store = (\<lambda>a. if a = 3 then [(''h'', [5])] else [])"

section \<open>The selector \<open>topk\<close> is admissible\<close>

lemma lp_less_irrefl [simp]: "\<not> lp_less x x"
  by (cases x) auto

lemma lp_less_trans: "lp_less x y \<Longrightarrow> lp_less y z \<Longrightarrow> lp_less x z"
  by (cases x; cases y; cases z) auto

lemma lp_less_total: "\<not> lp_less x y \<Longrightarrow> \<not> lp_less y z \<Longrightarrow> \<not> lp_less x z"
  by (cases x; cases y; cases z) auto

lemma lp_less_asym: "lp_less x y \<Longrightarrow> \<not> lp_less y x"
  by (cases x; cases y) auto

lemma set_insert_desc [simp]: "set (insert_desc xs i js) = insert i (set js)"
  by (induction js) auto

lemma length_insert_desc [simp]: "length (insert_desc xs i js) = Suc (length js)"
  by (induction js) auto

lemma distinct_insert_desc: "i \<notin> set js \<Longrightarrow> distinct js \<Longrightarrow> distinct (insert_desc xs i js)"
  by (induction js) auto

lemma sorted_insert_desc:
  "sorted_wrt (\<lambda>i j. \<not> lp_less (xs ! i) (xs ! j)) js \<Longrightarrow>
   sorted_wrt (\<lambda>i j. \<not> lp_less (xs ! i) (xs ! j)) (insert_desc xs i js)"
proof (induction js)
  case Nil
  then show ?case by simp
next
  case (Cons j js)
  show ?case
  proof (cases "lp_less (xs ! i) (xs ! j)")
    case True
    with Cons show ?thesis by (auto dest: lp_less_asym)
  next
    case False
    have "\<forall>x \<in> set js. \<not> lp_less (xs ! j) (xs ! x)"
      using Cons.prems by simp
    then have "\<forall>x \<in> set js. \<not> lp_less (xs ! i) (xs ! x)"
      using False lp_less_total by blast
    with False Cons.prems show ?thesis by simp
  qed
qed

lemma foldr_insert_desc:
  "distinct is \<Longrightarrow>
   set (foldr (insert_desc xs) is []) = set is \<and>
   length (foldr (insert_desc xs) is []) = length is \<and>
   distinct (foldr (insert_desc xs) is []) \<and>
   sorted_wrt (\<lambda>i j. \<not> lp_less (xs ! i) (xs ! j)) (foldr (insert_desc xs) is [])"
  by (induction "is") (auto simp: distinct_insert_desc sorted_insert_desc)

lemma argsort_desc_props:
  "set (argsort_desc xs) = {..<length xs}"
  "length (argsort_desc xs) = length xs"
  "distinct (argsort_desc xs)"
  "sorted_wrt (\<lambda>i j. \<not> lp_less (xs ! i) (xs ! j)) (argsort_desc xs)"
proof -
  have d: "distinct [0..<length xs]" by simp
  note f = foldr_insert_desc [OF d, of xs, folded argsort_desc_def]
  show "set (argsort_desc xs) = {..<length xs}"
    using f by (simp add: lessThan_atLeast0)
  show "length (argsort_desc xs) = length xs"
    using f by simp
  show "distinct (argsort_desc xs)"
    using f by simp
  show "sorted_wrt (\<lambda>i j. \<not> lp_less (xs ! i) (xs ! j)) (argsort_desc xs)"
    using f by simp
qed

lemma topk_props:
  assumes k: "k \<le> length xs"
  shows "length (topk xs k) = k"
    and "distinct (topk xs k)"
    and "\<forall>i \<in> set (topk xs k). i < length xs"
    and "sorted_wrt (\<lambda>i j. \<not> lp_less (xs ! i) (xs ! j)) (topk xs k)"
    and "\<forall>i<length xs. i \<notin> set (topk xs k) \<longrightarrow>
          (\<forall>j \<in> set (topk xs k). \<not> lp_less (xs ! j) (xs ! i))"
proof -
  let ?s = "argsort_desc xs"
  have split: "sorted_wrt (\<lambda>i j. \<not> lp_less (xs ! i) (xs ! j)) (take k ?s @ drop k ?s)"
    using argsort_desc_props(4) [of xs] by simp
  show "length (topk xs k) = k"
    using k by (simp add: topk_def argsort_desc_props)
  show "distinct (topk xs k)"
    by (simp add: topk_def argsort_desc_props)
  show "\<forall>i \<in> set (topk xs k). i < length xs"
    using argsort_desc_props(1) [of xs] by (auto simp: topk_def dest: in_set_takeD)
  show "sorted_wrt (\<lambda>i j. \<not> lp_less (xs ! i) (xs ! j)) (topk xs k)"
    using split unfolding sorted_wrt_append topk_def by blast
  show "\<forall>i<length xs. i \<notin> set (topk xs k) \<longrightarrow>
          (\<forall>j \<in> set (topk xs k). \<not> lp_less (xs ! j) (xs ! i))"
  proof (intro allI impI ballI)
    fix i j
    assume i: "i < length xs" "i \<notin> set (topk xs k)" and j: "j \<in> set (topk xs k)"
    have "i \<in> set (take k ?s @ drop k ?s)"
      using i(1) argsort_desc_props(1) [of xs] by simp
    then have "i \<in> set (drop k ?s)"
      using i(2) unfolding set_append topk_def by blast
    then show "\<not> lp_less (xs ! j) (xs ! i)"
      using j split unfolding sorted_wrt_append topk_def by blast
  qed
qed

lemma topk_is_topk: "topk_spec topk"
  unfolding topk_spec_def by (intro allI impI conjI topk_props)

section \<open>Lists as tensors\<close>

lemma length_concat_uniform:
  "\<forall>row \<in> set xss. length row = c \<Longrightarrow> length (concat xss) = length xss * c"
  by (induction xss) auto

lemma nth_concat_uniform:
  "\<forall>row \<in> set xss. length row = c \<Longrightarrow> i < length xss \<Longrightarrow> j < c \<Longrightarrow>
   concat xss ! (i * c + j) = xss ! i ! j"
proof (induction xss arbitrary: i)
  case Nil
  then show ?case by simp
next
  case (Cons row xss)
  show ?case
  proof (cases i)
    case 0
    with Cons.prems show ?thesis by (simp add: nth_append)
  next
    case (Suc i')
    with Cons.prems have "concat xss ! (i' * c + j) = xss ! i' ! j"
      by (intro Cons.IH) auto
    with Suc Cons.prems show ?thesis by (simp add: nth_append)
  qed
qed

lemma length_reshape2 [simp]: "length (reshape2 r c xs) = r"
  by (simp add: reshape2_def)

lemma grid_bound: "i < r \<Longrightarrow> j < c \<Longrightarrow> i * c + j < r * (c::nat)"
proof -
  assume a: "i < r" "j < c"
  then have "i * c + j < i * c + c" by simp
  also have "\<dots> = Suc i * c" by simp
  also have "\<dots> \<le> r * c" using a(1) by (intro mult_le_mono1) simp
  finally show ?thesis .
qed

lemma reshape2_row:
  "length xs = r * c \<Longrightarrow> i < r \<Longrightarrow> length (reshape2 r c xs ! i) = c"
proof -
  assume a: "length xs = r * c" "i < r"
  have "Suc i * c \<le> r * c" using a(2) by (intro mult_le_mono1) simp
  then show ?thesis using a by (simp add: reshape2_def)
qed

lemma reshape2_nth:
  "length xs = r * c \<Longrightarrow> i < r \<Longrightarrow> j < c \<Longrightarrow> reshape2 r c xs ! i ! j = xs ! (i * c + j)"
proof -
  assume a: "length xs = r * c" "i < r" "j < c"
  have "i * c \<le> r * c" using a(2) by (intro mult_le_mono1) simp
  then show ?thesis using a by (simp add: reshape2_def)
qed

lemma pick_nth:
  "i < length input \<Longrightarrow> i < length index \<Longrightarrow> j < length (index ! i) \<Longrightarrow>
   pick input index ! i ! j = input ! i ! (index ! i ! j)"
  by (simp add: pick_def)

lemma length_pick [simp]: "length (pick input index) = min (length input) (length index)"
  by (simp add: pick_def)

lemma length_pick_row:
  "i < length input \<Longrightarrow> i < length index \<Longrightarrow> length (pick input index ! i) = length (index ! i)"
  by (simp add: pick_def)

lemma tensor_topk_Inr:
  assumes tk: "topk_spec tk" and r: "tensor_topk tk k c m = Inr (vals, index)"
  shows "0 \<le> k" and "nat k \<le> c"
    and "length index = length m" and "length vals = length m"
    and "i < length m \<Longrightarrow> length (m ! i) = c"
    and "i < length m \<Longrightarrow> length (index ! i) = nat k"
    and "i < length m \<Longrightarrow> length (vals ! i) = nat k"
    and "i < length m \<Longrightarrow> j < nat k \<Longrightarrow> index ! i ! j < c"
    and "i < length m \<Longrightarrow> j < nat k \<Longrightarrow> vals ! i ! j = m ! i ! (index ! i ! j)"
proof -
  have g: "0 \<le> k" "int c \<ge> k" "list_all (\<lambda>row. length row = c) m"
    and ix: "index = map (\<lambda>row. tk row (nat k)) m" and v: "vals = pick m index"
    using r by (auto simp: tensor_topk_def Let_def split: if_splits)
  show "0 \<le> k" "nat k \<le> c" using g by auto
  show "length index = length m" using ix by simp
  then show "length vals = length m" using v by simp
  have row: "length (m ! i) = c" if "i < length m" for i
    using g(3) that by (simp add: list_all_length)
  have sel: "length (tk (m ! i) (nat k)) = nat k \<and> (\<forall>j \<in> set (tk (m ! i) (nat k)). j < c)"
    if "i < length m" for i
    using tk row [OF that] g(1,2) unfolding topk_spec_def
    by (metis nat_le_iff)
  show "i < length m \<Longrightarrow> length (m ! i) = c" by (rule row)
  show l: "i < length m \<Longrightarrow> length (index ! i) = nat k" using sel ix by simp
  show "i < length m \<Longrightarrow> length (vals ! i) = nat k"
    using l v ix by (simp add: length_pick_row)
  show "i < length m \<Longrightarrow> j < nat k \<Longrightarrow> index ! i ! j < c"
    using sel [of i] ix by (simp add: nth_mem del: all_set_conv_all_nth) 
  show "i < length m \<Longrightarrow> j < nat k \<Longrightarrow> vals ! i ! j = m ! i ! (index ! i ! j)"
    using l v ix by (simp add: pick_nth)
qed

section \<open>One pass of the loop body\<close>

text \<open>
  What a successful pass computes, entry by entry: the summed log-probability
  and the token of every candidate in the grid, and for every slot of the new
  beam its parent, its token and its log-probability.
\<close>

lemma length_cleaned:
  "length (cleaned_log_probabilities self ae lastp m) = min (length lastp) (min (length ae) (length m))"
  by (simp add: cleaned_log_probabilities_def)

lemma length_summed:
  "length (summed_top_log_probabilities tops last_lp) = min (length tops) (length (concat last_lp))"
  by (simp add: summed_top_log_probabilities_def)

lemma summed_nth:
  "g < length tops \<Longrightarrow> g < length (concat last_lp) \<Longrightarrow>
   summed_top_log_probabilities tops last_lp ! g = map (\<lambda>v. lp_add v (concat last_lp ! g)) (tops ! g)"
  by (simp add: summed_top_log_probabilities_def)

lemma grid_split:
  assumes "i < beam * p"
  shows "i div p < beam" and "i mod p < p"
    and "b * (beam * p) + i = (b * beam + i div p) * p + i mod (p::nat)"
proof -
  have p: "0 < p" using assms by (cases p) auto
  show "i div p < beam" using assms p by (simp add: less_mult_imp_div_less)
  show "i mod p < p" using p by simp
  have "(b * beam + i div p) * p + i mod p = b * beam * p + (i div p * p + i mod p)"
    by (simp add: algebra_simps)
  also have "\<dots> = b * (beam * p) + i" by (simp add: mult.assoc)
  finally show "b * (beam * p) + i = (b * beam + i div p) * p + i mod p" by simp
qed

lemma candidates_Inr:
  fixes self B V ae lastp last_lp clp
  defines "beam \<equiv> nat (beam_size self)" and "p \<equiv> nat (per_node_beam_size self)"
  defines "cleaned \<equiv> cleaned_log_probabilities self ae lastp (rows clp)"
  assumes tk: "topk_spec tk"
    and c: "candidates tk self B V ae lastp last_lp clp = Inr (rs, rc)"
    and lastp: "length lastp = B * beam" and ae: "length ae = B * beam"
  shows "length rs = B" and "length rc = B"
    and "length last_lp = B"
    and "b < B \<Longrightarrow> length (last_lp ! b) = beam"
    and "b < B \<Longrightarrow> length (rs ! b) = beam * p"
    and "b < B \<Longrightarrow> length (rc ! b) = beam * p"
    and "b < B \<Longrightarrow> i < beam * p \<Longrightarrow> 0 \<le> rc ! b ! i \<and> rc ! b ! i < int V"
    and "b < B \<Longrightarrow> i < beam * p \<Longrightarrow>
         rs ! b ! i = lp_add (cleaned ! (b * beam + i div p) ! nat (rc ! b ! i))
                        (last_lp ! b ! (i div p))"
proof -
  obtain tops pc where
    shape: "has_shape clp (B * beam) V"
    and t: "tensor_topk tk (per_node_beam_size self) V cleaned = Inr (tops, pc)"
    and l: "length last_lp = B" "list_all (\<lambda>row. length row = beam) last_lp"
    and rs: "rs = reshape2 B (beam * p) (concat (summed_top_log_probabilities tops last_lp))"
    and rc: "rc = reshape2 B (beam * p) (concat (map (map int) pc))"
    using c unfolding candidates_def Let_def beam_def p_def cleaned_def
    by (auto split: if_splits sum.splits)
  let ?G = "B * beam"
  let ?flat = "concat last_lp"
  let ?summed = "summed_top_log_probabilities tops last_lp"
  have lc: "length cleaned = ?G"
    using shape lastp ae by (simp add: cleaned_def length_cleaned has_shape_def)
  note tt = tensor_topk_Inr [OF tk t, unfolded lc, folded p_def]
  have lrow: "\<forall>row \<in> set last_lp. length row = beam"
    using l(2) by (simp add: list_all_iff)
  have lflat: "length ?flat = ?G"
    using length_concat_uniform [OF lrow] l(1) by simp
  have ltop: "length tops = ?G" and lpc: "length pc = ?G" using tt(3,4) by simp_all
  have lsum: "length ?summed = ?G" by (simp add: length_summed ltop lflat)
  have srow: "\<forall>row \<in> set ?summed. length row = p"
  proof
    fix row assume "row \<in> set ?summed"
    then obtain g where g: "g < ?G" and r: "row = ?summed ! g"
      using lsum by (metis in_set_conv_nth)
    show "length row = p" using g r tt(7) [of g] by (simp add: summed_nth ltop lflat)
  qed
  have crow: "\<forall>row \<in> set (map (map int) pc). length row = p"
  proof
    fix row assume "row \<in> set (map (map int) pc)"
    then obtain g where g: "g < ?G" and r: "row = map int (pc ! g)"
      using lpc by (auto simp: in_set_conv_nth)
    show "length row = p" using g r tt(6) [of g] by simp
  qed
  have lcs: "length (concat ?summed) = B * (beam * p)"
    using length_concat_uniform [OF srow] lsum by (simp add: mult.assoc)
  have lcc: "length (concat (map (map int) pc)) = B * (beam * p)"
    using length_concat_uniform [OF crow] lpc by (simp add: mult.assoc)
  show "length rs = B" "length rc = B" by (simp_all add: rs rc)
  show "length last_lp = B" by (rule l(1))
  show "b < B \<Longrightarrow> length (last_lp ! b) = beam" using lrow l(1) by simp
  show "b < B \<Longrightarrow> length (rs ! b) = beam * p" by (simp add: rs reshape2_row [OF lcs])
  show "b < B \<Longrightarrow> length (rc ! b) = beam * p" by (simp add: rc reshape2_row [OF lcc])
  {
    assume b: "b < B" and i: "i < beam * p"
    note gs = grid_split(1,2) [OF i] grid_split(3) [OF i, of b]
    let ?g = "b * beam + i div p"
    have g: "?g < ?G" using b gs(1) by (rule grid_bound)
    have rci: "rc ! b ! i = int (pc ! ?g ! (i mod p))"
    proof -
      have "rc ! b ! i = concat (map (map int) pc) ! (?g * p + i mod p)"
        using b i by (simp add: rc reshape2_nth [OF lcc] gs(3))
      also have "\<dots> = map (map int) pc ! ?g ! (i mod p)"
        using g gs(2) lpc by (intro nth_concat_uniform [OF crow]) simp_all
      also have "\<dots> = int (pc ! ?g ! (i mod p))"
        using g gs(2) lpc tt(6) [of ?g] by simp
      finally show ?thesis .
    qed
    show "0 \<le> rc ! b ! i \<and> rc ! b ! i < int V"
      using rci tt(8) [OF g gs(2)] by simp
    have "rs ! b ! i = concat ?summed ! (?g * p + i mod p)"
      using b i by (simp add: rs reshape2_nth [OF lcs] gs(3))
    also have "\<dots> = ?summed ! ?g ! (i mod p)"
      using g gs(2) lsum by (intro nth_concat_uniform [OF srow]) simp_all
    also have "\<dots> = lp_add (tops ! ?g ! (i mod p)) (?flat ! ?g)"
      using g gs(2) tt(7) [of ?g] by (simp add: summed_nth ltop lflat)
    also have "tops ! ?g ! (i mod p) = cleaned ! ?g ! (pc ! ?g ! (i mod p))"
      using tt(9) [OF g gs(2)] .
    also have "?flat ! ?g = last_lp ! b ! (i div p)"
      using b gs(1) l(1) by (intro nth_concat_uniform [OF lrow]) simp_all
    finally show "rs ! b ! i = lp_add (cleaned ! ?g ! nat (rc ! b ! i)) (last_lp ! b ! (i div p))"
      by (simp add: rci)
  }
qed

lemma gather_Inr:
  "gather input index = Inr out \<Longrightarrow>
   out = pick input index \<and> length index \<le> length input \<and>
   (\<forall>i<length index. \<forall>j<length (index ! i). index ! i ! j < length (input ! i))"
  by (auto simp: gather_def list_all_length split: if_splits)

lemma prune_Inr:
  fixes self
  defines "beam \<equiv> nat (beam_size self)" and "p \<equiv> nat (per_node_beam_size self)"
  assumes tk: "topk_spec tk"
    and pr: "prune tk self rs rc = Inr (cls, lps, bp)"
    and lrs: "length rs = B" and lrc: "length rc = B"
  shows "length cls = B" and "length lps = B" and "length bp = B"
    and "0 \<le> beam_size self"
    and "b < B \<Longrightarrow> length (cls ! b) = beam"
    and "b < B \<Longrightarrow> length (lps ! b) = beam"
    and "b < B \<Longrightarrow> length (bp ! b) = beam"
    and "b < B \<Longrightarrow> k < beam \<Longrightarrow>
         \<exists>i<beam * p. bp ! b ! k = i div p \<and> cls ! b ! k = rc ! b ! i \<and> lps ! b ! k = rs ! b ! i"
proof -
  obtain ridx where
    t: "tensor_topk tk (beam_size self) (beam * p) rs = Inr (lps, ridx)"
    and g: "gather rc ridx = Inr cls"
    and bp: "bp = map (map (\<lambda>i. i div p)) ridx"
    using pr unfolding prune_def beam_def p_def by (auto split: sum.splits)
  note tt = tensor_topk_Inr [OF tk t, unfolded lrs, folded beam_def]
  note gg = gather_Inr [OF g]
  have lr: "length ridx = B" using tt(3) .
  show "length cls = B" using gg lr lrc by simp
  show "length lps = B" using tt(4) .
  show "length bp = B" using bp lr by simp
  show "0 \<le> beam_size self" using tt(1) .
  show "b < B \<Longrightarrow> length (cls ! b) = beam"
    using gg lr lrc tt(6) [of b] by (simp add: length_pick_row)
  show "b < B \<Longrightarrow> length (lps ! b) = beam" using tt(7) .
  show "b < B \<Longrightarrow> length (bp ! b) = beam" using bp lr tt(6) [of b] by simp
  {
    assume b: "b < B" and k: "k < beam"
    let ?i = "ridx ! b ! k"
    have "?i < beam * p" using tt(8) [OF b k] .
    moreover have "bp ! b ! k = ?i div p" using bp lr b k tt(6) [of b] by simp
    moreover have "cls ! b ! k = rc ! b ! ?i"
      using gg lr lrc b k tt(6) [of b] by (simp add: pick_nth)
    moreover have "lps ! b ! k = rs ! b ! ?i" using tt(9) [OF b k] .
    ultimately show "\<exists>i<beam * p. bp ! b ! k = i div p \<and> cls ! b ! k = rc ! b ! i \<and> lps ! b ! k = rs ! b ! i"
      by blast
  }
qed

lemma advance_Inr:
  fixes self B V ae lastp last_lp clp
  defines "beam \<equiv> nat (beam_size self)"
  defines "cleaned \<equiv> cleaned_log_probabilities self ae lastp (rows clp)"
  assumes tk: "topk_spec tk"
    and a: "advance tk self B V ae lastp last_lp clp = Inr (cls, lps, bp)"
    and lastp: "length lastp = B * beam" and ae: "length ae = B * beam"
  shows "length cls = B" and "length lps = B" and "length bp = B" and "length last_lp = B"
    and "b < B \<Longrightarrow> length (cls ! b) = beam"
    and "b < B \<Longrightarrow> length (lps ! b) = beam"
    and "b < B \<Longrightarrow> length (bp ! b) = beam"
    and "b < B \<Longrightarrow> k < beam \<Longrightarrow> bp ! b ! k < beam"
    and "b < B \<Longrightarrow> k < beam \<Longrightarrow> 0 \<le> cls ! b ! k \<and> cls ! b ! k < int V"
    and "b < B \<Longrightarrow> k < beam \<Longrightarrow>
         lps ! b ! k = lp_add (cleaned ! (b * beam + bp ! b ! k) ! nat (cls ! b ! k))
                         (last_lp ! b ! (bp ! b ! k))"
proof -
  obtain rs rc where
    c: "candidates tk self B V ae lastp last_lp clp = Inr (rs, rc)"
    and pr: "prune tk self rs rc = Inr (cls, lps, bp)"
    using a unfolding advance_def by (auto split: sum.splits)
  note cc = candidates_Inr [OF tk c lastp [unfolded beam_def] ae [unfolded beam_def],
      folded beam_def cleaned_def]
  note pp = prune_Inr [OF tk pr cc(1) cc(2), folded beam_def]
  show "length cls = B" "length lps = B" "length bp = B" "length last_lp = B"
    using pp(1-3) cc(3) by simp_all
  show "b < B \<Longrightarrow> length (cls ! b) = beam" using pp(5) .
  show "b < B \<Longrightarrow> length (lps ! b) = beam" using pp(6) .
  show "b < B \<Longrightarrow> length (bp ! b) = beam" using pp(7) .
  {
    assume b: "b < B" and k: "k < beam"
    let ?p = "nat (per_node_beam_size self)"
    obtain i where i: "i < beam * ?p" "bp ! b ! k = i div ?p" "cls ! b ! k = rc ! b ! i"
      "lps ! b ! k = rs ! b ! i"
      using pp(8) [OF b k] by blast
    show "bp ! b ! k < beam" using i(1,2) grid_split(1) by simp
    show "0 \<le> cls ! b ! k \<and> cls ! b ! k < int V" using cc(7) [OF b i(1)] i(3) by simp
    show "lps ! b ! k = lp_add (cleaned ! (b * beam + bp ! b ! k) ! nat (cls ! b ! k))
                         (last_lp ! b ! (bp ! b ! k))"
      using cc(8) [OF b i(1)] i(2,3,4) by simp
  }
qed

section \<open>The loop and its initial state\<close>

lemma loop_body_eq:
  "step lastp (state ls) (store ls) = ((clp, st), h1) \<Longrightarrow>
   loop_body tk self B V ae step ls lastp =
     (case advance tk self B V ae lastp (last_log_probabilities ls) clp of
        Inl e \<Rightarrow> Inl (e, trace ls @ [(Step, lastp, clp)])
      | Inr (cls, lps, bp) \<Rightarrow>
          (case map_items (select_ancestors B (nat (beam_size self)) bp) (h1 st) of
             Inl e \<Rightarrow> Inl (e, trace ls @ [(Step, lastp, clp)])
           | Inr d \<Rightarrow>
               Inr \<lparr>predictions = predictions ls @ [cls],
                    backpointers = backpointers ls @ [bp],
                    last_log_probabilities = lps,
                    state = st,
                    store = h1(st := d),
                    trace = trace ls @ [(Step, lastp, clp)]\<rparr>))"
  by (simp add: loop_body_def Let_def)

lemma loop_body_Inr:
  assumes lb: "loop_body tk self B V ae step ls lastp = Inr ls'"
  obtains clp st h1 cls lps bp d where
    "step lastp (state ls) (store ls) = ((clp, st), h1)"
    "advance tk self B V ae lastp (last_log_probabilities ls) clp = Inr (cls, lps, bp)"
    "map_items (select_ancestors B (nat (beam_size self)) bp) (h1 st) = Inr d"
    "predictions ls' = predictions ls @ [cls]"
    "backpointers ls' = backpointers ls @ [bp]"
    "last_log_probabilities ls' = lps"
    "state ls' = st"
    "store ls' = h1(st := d)"
    "trace ls' = trace ls @ [(Step, lastp, clp)]"
proof -
  obtain clp st h1 where s: "step lastp (state ls) (store ls) = ((clp, st), h1)"
    by (metis surj_pair)
  note e = lb [unfolded loop_body_eq [where step = step and lastp = lastp and ls = ls, OF s]]
  obtain cls lps bp where
    a: "advance tk self B V ae lastp (last_log_probabilities ls) clp = Inr (cls, lps, bp)"
    using e by (auto split: sum.splits)
  obtain d where
    m: "map_items (select_ancestors B (nat (beam_size self)) bp) (h1 st) = Inr d"
    using e a by (auto split: sum.splits)
  have "ls' = \<lparr>predictions = predictions ls @ [cls], backpointers = backpointers ls @ [bp],
              last_log_probabilities = lps, state = st, store = h1(st := d),
              trace = trace ls @ [(Step, lastp, clp)]\<rparr>"
    using e a m by simp
  then show thesis using that [OF s a m] by simp
qed

lemma run_loop_induct:
  assumes r: "run_loop tk self B V ae step n ls0 = Inr ls"
    and base: "P ls0"
    and step: "\<And>l lastp l'. P l \<Longrightarrow>
        last_predictions_of B (nat (beam_size self)) (predictions l) = Inr lastp \<Longrightarrow>
        \<not> list_all (\<lambda>tok. tok = end_index self) lastp \<Longrightarrow>
        loop_body tk self B V ae step l lastp = Inr l' \<Longrightarrow> P l'"
  shows "P ls"
  using r base
proof (induction n arbitrary: ls0)
  case 0
  then show ?case by simp
next
  case (Suc n)
  from Suc.prems(1) obtain lastp where
    lp: "last_predictions_of B (nat (beam_size self)) (predictions ls0) = Inr lastp"
    by (auto split: sum.splits)
  show ?case
  proof (cases "list_all (\<lambda>tok. tok = end_index self) lastp")
    case True
    with Suc.prems lp show ?thesis by simp
  next
    case False
    with Suc.prems(1) lp obtain l' where
      lb: "loop_body tk self B V ae step ls0 lastp = Inr l'"
      and rest: "run_loop tk self B V ae step n l' = Inr ls"
      by (auto split: sum.splits)
    from step [OF Suc.prems(2) lp False lb] have "P l'" .
    with rest show ?thesis by (rule Suc.IH)
  qed
qed

lemma last_predictions_of_Inr:
  assumes "last_predictions_of B beam preds = Inr lastp"
  shows "preds \<noteq> []" and "lastp = concat (last preds)" and "length lastp = B * beam"
  using assms by (auto simp: last_predictions_of_def split: if_splits)

lemma log_probs_after_end_Inr:
  assumes "log_probs_after_end self n V = Inr ae"
  shows "length ae = n"
    and "- int V \<le> end_index self" and "end_index self < int V"
    and "g < n \<Longrightarrow> length (ae ! g) = V"
    and "g < n \<Longrightarrow> 0 \<le> end_index self \<Longrightarrow> j < V \<Longrightarrow>
         ae ! g ! j = (if int j = end_index self then Fin 0 else NegInf)"
proof -
  let ?e = "end_index self"
  have r: "- int V \<le> ?e" "?e < int V"
    and ae: "ae = replicate n ((replicate V NegInf)[nat (if ?e < 0 then int V + ?e else ?e) := Fin 0])"
    using assms by (auto simp: log_probs_after_end_def Let_def split: if_splits)
  show "length ae = n" using ae by simp
  show "- int V \<le> ?e" "?e < int V" using r .
  show "g < n \<Longrightarrow> length (ae ! g) = V" using ae by simp
  show "g < n \<Longrightarrow> 0 \<le> ?e \<Longrightarrow> j < V \<Longrightarrow>
         ae ! g ! j = (if int j = ?e then Fin 0 else NegInf)"
    using ae r by (auto simp: nth_list_update)
qed

lemma initialise_eq:
  "(case fs of None \<Rightarrow> (Step, step) | Some g \<Rightarrow> (FirstStep, g)) = (who, f) \<Longrightarrow>
   f sp a h = ((sc, st), h1) \<Longrightarrow>
   initialise tk self sp a step fs h =
     (if per_node_beam_size self > int (num_cols sc) then Inl (ConfigurationError, [(who, sp, sc)])
      else
        (case tensor_topk tk (beam_size self) (num_cols sc) (rows sc) of
           Inl e \<Rightarrow> Inl (e, [(who, sp, sc)])
         | Inr (vals, idx) \<Rightarrow>
             (case log_probs_after_end self (length sp * nat (beam_size self)) (num_cols sc) of
                Inl e \<Rightarrow> Inl (e, [(who, sp, sc)])
              | Inr after_end \<Rightarrow>
                  (case map_items (expand_state_tensor (length sp) (nat (beam_size self))) (h1 st) of
                     Inl e \<Rightarrow> Inl (e, [(who, sp, sc)])
                   | Inr d \<Rightarrow>
                       Inr (num_cols sc, after_end,
                            \<lparr>predictions = [map (map int) idx],
                             backpointers = [],
                             last_log_probabilities = vals,
                             state = st,
                             store = h1(st := d),
                             trace = [(who, sp, sc)]\<rparr>)))))"
  by (simp add: initialise_def Let_def)

lemma initialise_Inr:
  assumes i: "initialise tk self sp a step fs h = Inr (V, ae, ls0)"
  obtains who f sc st h1 vals idx d where
    "(case fs of None \<Rightarrow> (Step, step) | Some g \<Rightarrow> (FirstStep, g)) = (who, f)"
    "f sp a h = ((sc, st), h1)"
    "V = num_cols sc"
    "per_node_beam_size self \<le> int V"
    "tensor_topk tk (beam_size self) V (rows sc) = Inr (vals, idx)"
    "log_probs_after_end self (length sp * nat (beam_size self)) V = Inr ae"
    "map_items (expand_state_tensor (length sp) (nat (beam_size self))) (h1 st) = Inr d"
    "predictions ls0 = [map (map int) idx]"
    "backpointers ls0 = []"
    "last_log_probabilities ls0 = vals"
    "state ls0 = st"
    "store ls0 = h1(st := d)"
    "trace ls0 = [(who, sp, sc)]"
proof -
  obtain who f where wf: "(case fs of None \<Rightarrow> (Step, step) | Some g \<Rightarrow> (FirstStep, g)) = (who, f)"
    by (metis surj_pair)
  obtain sc st h1 where c: "f sp a h = ((sc, st), h1)"
    by (metis surj_pair)
  note e = i [unfolded initialise_eq [where f = f and sp = sp and a = a and h = h, OF wf c]]
  have pn: "per_node_beam_size self \<le> int (num_cols sc)"
    using e by (auto split: if_splits)
  obtain vals idx where t: "tensor_topk tk (beam_size self) (num_cols sc) (rows sc) = Inr (vals, idx)"
    using e pn by (auto split: sum.splits)
  obtain ae' where l: "log_probs_after_end self (length sp * nat (beam_size self)) (num_cols sc) = Inr ae'"
    using e pn t by (auto split: sum.splits)
  obtain d where m: "map_items (expand_state_tensor (length sp) (nat (beam_size self))) (h1 st) = Inr d"
    using e pn t l by (auto split: sum.splits)
  have r: "V = num_cols sc \<and> ae = ae' \<and>
           ls0 = \<lparr>predictions = [map (map int) idx], backpointers = [],
               last_log_probabilities = vals, state = st, store = h1(st := d),
               trace = [(who, sp, sc)]\<rparr>"
    using e pn t l m by simp
  show thesis
    by (rule that [OF wf c, where vals = vals and idx = idx and d = d])
      (use r pn t l m in simp_all)
qed

section \<open>The shape of the beam is invariant\<close>

lemma beam_inv_init:
  assumes tk: "topk_spec tk" and i: "initialise tk self sp a step fs h = Inr (V, ae, ls0)"
  shows "beam_inv self V ls0"
proof -
  from i obtain who sc vals idx where
    t: "tensor_topk tk (beam_size self) V (rows sc) = Inr (vals, idx)"
    and p: "predictions ls0 = [map (map int) idx]"
    and b: "backpointers ls0 = []"
    and l: "last_log_probabilities ls0 = vals"
    and tr: "trace ls0 = [(who, sp, sc)]"
    by (rule initialise_Inr)
  note tt = tensor_topk_Inr [OF tk t]
  have n: "length vals = length idx" using tt(3,4) by simp
  show ?thesis
    unfolding beam_inv_def Let_def p b l tr
    using tt(3,4,6,7,8) by (simp add: n)
qed

lemma beam_inv_step:
  assumes tk: "topk_spec tk" and inv: "beam_inv self V l"
    and lp: "last_predictions_of B (nat (beam_size self)) (predictions l) = Inr lastp"
    and ae: "length ae = B * nat (beam_size self)"
    and lb: "loop_body tk self B V ae step l lastp = Inr l'"
  shows "beam_inv self V l'" and "length (last_log_probabilities l') = B"
    and "length (last_log_probabilities l) = B"
proof -
  let ?beam = "nat (beam_size self)"
  from lb obtain clp cls lps bp where
    a: "advance tk self B V ae lastp (last_log_probabilities l) clp = Inr (cls, lps, bp)"
    and p: "predictions l' = predictions l @ [cls]"
    and b: "backpointers l' = backpointers l @ [bp]"
    and ll: "last_log_probabilities l' = lps"
    and tr: "trace l' = trace l @ [(Step, lastp, clp)]"
    by (rule loop_body_Inr)
  have len: "length lastp = B * ?beam"
    using lp by (rule last_predictions_of_Inr(3))
  note aa = advance_Inr [OF tk a len ae]
  show nb': "length (last_log_probabilities l') = B" using ll aa(2) by simp
  show nb: "length (last_log_probabilities l) = B" using aa(4) .
  note old = inv [unfolded beam_inv_def Let_def nb]
  have preds: "length (predictions l' ! t) = B \<and>
         (\<forall>b<B. length (predictions l' ! t ! b) = ?beam \<and>
            (\<forall>k<?beam. 0 \<le> predictions l' ! t ! b ! k \<and> predictions l' ! t ! b ! k < int V))"
    if "t < length (predictions l')" for t
  proof (cases "t < length (predictions l)")
    case True
    then show ?thesis using old by (simp add: p nth_append)
  next
    case False
    then have "predictions l' ! t = cls" using that by (simp add: p nth_append)
    then show ?thesis using aa(1,5,9) by simp
  qed
  have bps: "length (backpointers l' ! t) = B \<and>
         (\<forall>b<B. length (backpointers l' ! t ! b) = ?beam \<and>
            (\<forall>k<?beam. backpointers l' ! t ! b ! k < ?beam))"
    if "t < length (backpointers l')" for t
  proof (cases "t < length (backpointers l)")
    case True
    then show ?thesis using old by (simp add: b nth_append)
  next
    case False
    then have "backpointers l' ! t = bp" using that by (simp add: b nth_append)
    then show ?thesis using aa(3,7,8) by simp
  qed
  have lens: "length (predictions l') = Suc (length (backpointers l'))"
    "length (trace l') = length (predictions l')"
    using old by (simp_all add: p b tr)
  have rows: "\<forall>b<B. length (last_log_probabilities l' ! b) = ?beam"
    using aa(6) ll by simp
  show "beam_inv self V l'"
    unfolding beam_inv_def Let_def nb'
    using lens rows preds bps by blast
qed

lemma after_end_length:
  assumes "initialise tk self sp a step fs h = Inr (V, ae, ls0)"
  shows "length ae = length sp * nat (beam_size self)"
proof -
  from assms have "log_probs_after_end self (length sp * nat (beam_size self)) V = Inr ae"
    by (rule initialise_Inr)
  then show ?thesis by (rule log_probs_after_end_Inr(1))
qed

lemma beam_inv_run:
  assumes tk: "topk_spec tk" and i: "initialise tk self sp a step fs h = Inr (V, ae, ls0)"
    and r: "run_loop tk self (length sp) V ae step n ls0 = Inr ls"
  shows "beam_inv self V ls"
  using r
proof (rule run_loop_induct)
  show "beam_inv self V ls0" using tk i by (rule beam_inv_init)
next
  fix l lastp l'
  assume "beam_inv self V l"
    "last_predictions_of (length sp) (nat (beam_size self)) (predictions l) = Inr lastp"
    "loop_body tk self (length sp) V ae step l lastp = Inr l'"
  then show "beam_inv self V l'"
    using beam_inv_step(1) [OF tk _ _ after_end_length [OF i]] by blast
qed

section \<open>The example search, evaluated\<close>

lemma ex_first_topk:
  "tensor_topk topk 2 3 [[Fin (- 1), Fin (- 2), Fin (- 3)]] =
     Inr ([[Fin (- 1), Fin (- 2)]], [[0, 1]])"
  by code_simp

lemma ex_log_probs_after_end: "log_probs_after_end ex_self (1 * 2) 3 = Inr ex_after_end"
  by code_simp

lemma ex_expand: "map_items (expand_state_tensor 1 2) [(''h'', [5::nat])] = Inr [(''h'', [5, 5])]"
  by code_simp

lemma ex_advance:
  "advance topk ex_self 1 3 ex_after_end [0, 1] [[Fin (- 1), Fin (- 2)]] (ex_scores 2) =
     Inr ([[0, 0]], [[Fin (- 1), Fin (- 3)]], [[0, 1]])"
  by code_simp

lemma ex_select:
  "map_items (select_ancestors 1 2 [[0, 1]]) [(''h'', [5::nat, 5])] = Inr [(''h'', [5, 5])]"
  by code_simp

lemma ex_self_simps:
  "end_index ex_self = 0" "max_steps ex_self = 3" "beam_size ex_self = 2"
  "per_node_beam_size ex_self = 2"
  by (simp_all add: ex_self_def BeamSearch_init_def)

lemma ex_initialise:
  "initialise topk ex_self [7] 0 ex_step None ex_store = Inr (3, ex_after_end, ex_ls0)"
proof -
  have f: "(case None of None \<Rightarrow> (Step, ex_step) | Some g \<Rightarrow> (FirstStep, g)) = (Step, ex_step)"
    by simp
  have c: "ex_step [7] 0 ex_store = ((ex_scores 1, 0), ex_store)"
    by (simp add: ex_step_def)
  show ?thesis
    unfolding initialise_eq [where f = ex_step, OF f c]
    using ex_first_topk ex_log_probs_after_end ex_expand
    by (simp add: ex_self_simps ex_scores_def ex_ls0_def ex_store_def)
qed

lemma ex_loop_body:
  "loop_body topk ex_self 1 3 ex_after_end ex_step ex_ls0 [0, 1] = Inr ex_ls1"
proof -
  have c: "ex_step [0, 1] (state ex_ls0) (store ex_ls0) = ((ex_scores 2, 0), store ex_ls0)"
    by (simp add: ex_step_def ex_ls0_def numeral_2_eq_2)
  show ?thesis
    unfolding loop_body_eq [where step = ex_step, OF c]
    using ex_advance ex_select
    by (simp add: ex_self_simps ex_ls0_def ex_ls1_def ex_store_def)
qed

lemma ex_run_loop_1:
  "run_loop topk ex_self (length [7::int]) 3 ex_after_end ex_step 1 ex_ls0 = Inr ex_ls1"
proof -
  have l: "last_predictions_of 1 2 (predictions ex_ls0) = Inr [0, 1]"
    by (simp add: last_predictions_of_def ex_ls0_def)
  show ?thesis
    using l ex_loop_body by (simp add: ex_self_simps)
qed

section \<open>The width of the beam\<close>

text \<open>
  Claim C6. At every pass of the main loop of every search, each batch element
  has exactly \<open>beam_size\<close> entries in the predictions of every timestep and in
  \<open>last_log_probabilities\<close>: the selection always returns \<open>beam_size\<close> positions,
  whether or not the candidates are distinct.
\<close>

theorem beam_width:
  assumes "topk_spec tk"
    and "initialise tk self start_predictions start_state step first_step h = Inr (V, after_end, ls0)"
    and "run_loop tk self (length start_predictions) V after_end step n ls0 = Inr ls"
  shows "(\<forall>t<length (predictions ls). \<forall>row \<in> set (predictions ls ! t).
            int (length row) = beam_size self) \<and>
         (\<forall>row \<in> set (last_log_probabilities ls). int (length row) = beam_size self)"
proof -
  have inv: "beam_inv self V ls" using assms by (rule beam_inv_run)
  from assms(2) obtain sc vals idx where
    "tensor_topk tk (beam_size self) V (rows sc) = Inr (vals, idx)"
    by (rule initialise_Inr)
  then have "0 \<le> beam_size self" by (rule tensor_topk_Inr(1) [OF assms(1)])
  then have n: "int (nat (beam_size self)) = beam_size self" by simp
  note i = inv [unfolded beam_inv_def Let_def]
  have "int (length row) = beam_size self"
    if "t < length (predictions ls)" "row \<in> set (predictions ls ! t)" for t row
  proof -
    from that(2) obtain b where "b < length (predictions ls ! t)" "row = predictions ls ! t ! b"
      by (metis in_set_conv_nth)
    then show ?thesis using i that(1) n by simp
  qed
  moreover have "int (length row) = beam_size self"
    if "row \<in> set (last_log_probabilities ls)" for row
  proof -
    from that obtain b where "b < length (last_log_probabilities ls)"
      "row = last_log_probabilities ls ! b"
      by (metis in_set_conv_nth)
    then show ?thesis using i n by simp
  qed
  ultimately show ?thesis by blast
qed

theorem beam_width_witness:
  "topk_spec topk \<and>
   initialise topk ex_self [7] 0 ex_step None ex_store = Inr (3, ex_after_end, ex_ls0) \<and>
   run_loop topk ex_self (length [7::int]) 3 ex_after_end ex_step 1 ex_ls0 = Inr ex_ls1 \<and>
   int (length (predictions ex_ls1 ! 1 ! 0)) = beam_size ex_self \<and>
   int (length (last_log_probabilities ex_ls1 ! 0)) = beam_size ex_self"
proof -
  note w = beam_width [OF topk_is_topk ex_initialise ex_run_loop_1]
  have "predictions ex_ls1 ! 1 ! 0 \<in> set (predictions ex_ls1 ! 1)"
    "last_log_probabilities ex_ls1 ! 0 \<in> set (last_log_probabilities ex_ls1)"
    "1 < length (predictions ex_ls1)"
    by (simp_all add: ex_ls1_def)
  with w show ?thesis
    using topk_is_topk ex_initialise ex_run_loop_1 by blast
qed

section \<open>Cumulative log-probabilities\<close>

lemma step_scores_append:
  "t < length tr \<Longrightarrow> step_scores self ae (tr @ [c]) t = step_scores self ae tr t"
  by (simp add: step_scores_def nth_append)

lemma path_logprob_append:
  assumes "length preds = Suc (length bps)" and "length tr = length preds"
  shows "t < length preds \<Longrightarrow>
    path_logprob (step_scores self ae (tr @ [c])) beam (preds @ [p]) (bps @ [q]) t b k =
    path_logprob (step_scores self ae tr) beam preds bps t b k"
proof (induction t arbitrary: k)
  case 0
  then show ?case using assms by (simp add: step_scores_append nth_append)
next
  case (Suc t)
  then have "t < length preds" "t < length bps" "Suc t < length tr"
    using assms by simp_all
  then show ?case using Suc by (simp add: step_scores_append nth_append)
qed

lemma lp_inv_init:
  assumes tk: "topk_spec tk" and i: "initialise tk self sp a step fs h = Inr (V, ae, ls0)"
  shows "lp_inv self ae ls0"
proof -
  from i obtain who sc vals idx where
    v: "V = num_cols sc"
    and t: "tensor_topk tk (beam_size self) V (rows sc) = Inr (vals, idx)"
    and p: "predictions ls0 = [map (map int) idx]"
    and b: "backpointers ls0 = []"
    and l: "last_log_probabilities ls0 = vals"
    and tr: "trace ls0 = [(who, sp, sc)]"
    by (rule initialise_Inr)
  note tt = tensor_topk_Inr [OF tk t]
  have "vals ! b ! k = rows sc ! b ! nat (map (map int) idx ! b ! k)"
    if "b < length vals" "k < nat (beam_size self)" for b k
    using that tt(3,4) tt(6) [of b] tt(9) [of b k] by simp
  then show ?thesis
    unfolding lp_inv_def p b l tr by (simp add: step_scores_def)
qed

lemma lp_inv_step:
  assumes tk: "topk_spec tk" and inv: "beam_inv self V l" and lpi: "lp_inv self ae l"
    and lp: "last_predictions_of B (nat (beam_size self)) (predictions l) = Inr lastp"
    and ae: "length ae = B * nat (beam_size self)"
    and lb: "loop_body tk self B V ae step l lastp = Inr l'"
  shows "lp_inv self ae l'"
proof -
  let ?beam = "nat (beam_size self)"
  from lb obtain clp cls lps bp where
    a: "advance tk self B V ae lastp (last_log_probabilities l) clp = Inr (cls, lps, bp)"
    and p: "predictions l' = predictions l @ [cls]"
    and b: "backpointers l' = backpointers l @ [bp]"
    and ll: "last_log_probabilities l' = lps"
    and tr: "trace l' = trace l @ [(Step, lastp, clp)]"
    by (rule loop_body_Inr)
  have len: "length lastp = B * ?beam"
    using lp by (rule last_predictions_of_Inr(3))
  note aa = advance_Inr [OF tk a len ae]
  have lens: "length (predictions l) = Suc (length (backpointers l))"
    "length (trace l) = length (predictions l)"
    using inv unfolding beam_inv_def Let_def by simp_all
  let ?T = "length (backpointers l)"
  let ?sc' = "step_scores self ae (trace l')"
  have "lps ! b ! k = path_logprob ?sc' ?beam (predictions l') (backpointers l')
                        (length (predictions l') - 1) b k"
    if bk: "b < B" "k < ?beam" for b k
  proof -
    let ?j = "bp ! b ! k"
    have j: "?j < ?beam" using aa(8) [OF bk] .
    have new: "?sc' (Suc ?T) = cleaned_log_probabilities self ae lastp (rows clp)"
      using lens by (simp add: step_scores_def tr nth_append)
    have old: "path_logprob ?sc' ?beam (predictions l') (backpointers l') ?T b ?j =
        last_log_probabilities l ! b ! ?j"
    proof -
      have "path_logprob ?sc' ?beam (predictions l') (backpointers l') ?T b ?j =
          path_logprob (step_scores self ae (trace l)) ?beam (predictions l) (backpointers l) ?T b ?j"
        unfolding tr p b using lens by (intro path_logprob_append) simp_all
      also have "\<dots> = last_log_probabilities l ! b ! ?j"
        using lpi bk(1) j aa(4) lens unfolding lp_inv_def by simp
      finally show ?thesis .
    qed
    have "path_logprob ?sc' ?beam (predictions l') (backpointers l')
            (length (predictions l') - 1) b k =
          path_logprob ?sc' ?beam (predictions l') (backpointers l') (Suc ?T) b k"
      using lens by (simp add: p)
    also have "\<dots> = lp_add (cleaned_log_probabilities self ae lastp (rows clp)
                              ! (b * ?beam + ?j) ! nat (cls ! b ! k))
                         (last_log_probabilities l ! b ! ?j)"
    proof -
      have bpT: "backpointers l' ! ?T = bp" by (simp add: b)
      have pT: "predictions l' ! Suc ?T = cls" using lens by (simp add: p nth_append)
      have "path_logprob ?sc' ?beam (predictions l') (backpointers l') (Suc ?T) b k =
          lp_add (?sc' (Suc ?T) ! (b * ?beam + backpointers l' ! ?T ! b ! k)
                    ! nat (predictions l' ! Suc ?T ! b ! k))
            (path_logprob ?sc' ?beam (predictions l') (backpointers l') ?T b
               (backpointers l' ! ?T ! b ! k))"
        by simp
      then show ?thesis by (simp only: bpT pT new old)
    qed
    also have "\<dots> = lps ! b ! k" using aa(10) [OF bk] by simp
    finally show ?thesis by simp
  qed
  then show ?thesis unfolding lp_inv_def ll using aa(2) by simp
qed

text \<open>
  Claim C1. At every pass of the main loop, for every batch element \<open>b\<close> and
  slot \<open>k\<close>, \<open>last_log_probabilities[b, k]\<close> is the cumulative log-probability
  of the hypothesis that ends in slot \<open>k\<close> of the last predictions: the sum,
  along the backpointers back to the first step, of the log-probabilities
  (after the forced-end replacement) of its tokens.
\<close>

theorem last_log_probabilities_cumulative:
  assumes "topk_spec tk"
    and "initialise tk self start_predictions start_state step first_step h = Inr (V, after_end, ls0)"
    and "run_loop tk self (length start_predictions) V after_end step n ls0 = Inr ls"
    and "b < length (last_log_probabilities ls)" and "k < nat (beam_size self)"
  shows "last_log_probabilities ls ! b ! k =
         path_logprob (step_scores self after_end (trace ls)) (nat (beam_size self))
           (predictions ls) (backpointers ls) (length (predictions ls) - 1) b k"
proof -
  note ae = after_end_length [OF assms(2)]
  have "beam_inv self V ls \<and> lp_inv self after_end ls"
    using assms(3)
  proof (rule run_loop_induct)
    show "beam_inv self V ls0 \<and> lp_inv self after_end ls0"
      using beam_inv_init [OF assms(1,2)] lp_inv_init [OF assms(1,2)] by simp
  next
    fix l lastp l'
    assume "beam_inv self V l \<and> lp_inv self after_end l"
      and "last_predictions_of (length start_predictions) (nat (beam_size self)) (predictions l) = Inr lastp"
      and "loop_body tk self (length start_predictions) V after_end step l lastp = Inr l'"
    then show "beam_inv self V l' \<and> lp_inv self after_end l'"
      using beam_inv_step(1) [OF assms(1) _ _ ae] lp_inv_step [OF assms(1) _ _ _ ae] by blast
  qed
  then show ?thesis using assms(4,5) unfolding lp_inv_def by simp
qed

theorem last_log_probabilities_cumulative_witness:
  "topk_spec topk \<and>
   initialise topk ex_self [7] 0 ex_step None ex_store = Inr (3, ex_after_end, ex_ls0) \<and>
   run_loop topk ex_self (length [7::int]) 3 ex_after_end ex_step 1 ex_ls0 = Inr ex_ls1 \<and>
   (0::nat) < length (last_log_probabilities ex_ls1) \<and> (1::nat) < nat (beam_size ex_self) \<and>
   last_log_probabilities ex_ls1 ! 0 ! 1 = Fin (- 3) \<and>
   path_logprob (step_scores ex_self ex_after_end (trace ex_ls1)) (nat (beam_size ex_self))
     (predictions ex_ls1) (backpointers ex_ls1) (length (predictions ex_ls1) - 1) 0 1 = Fin (- 3)"
proof -
  have b: "(0::nat) < length (last_log_probabilities ex_ls1)" by (simp add: ex_ls1_def)
  have k: "(1::nat) < nat (beam_size ex_self)" by (simp add: ex_self_simps)
  have v: "last_log_probabilities ex_ls1 ! 0 ! 1 = Fin (- 3)" by (simp add: ex_ls1_def)
  note w = last_log_probabilities_cumulative [OF topk_is_topk ex_initialise ex_run_loop_1 b k]
  show ?thesis
    using topk_is_topk ex_initialise ex_run_loop_1 b k v w by simp
qed

section \<open>Backpointers\<close>



section \<open>Hypotheses that have ended\<close>

lemma lp_add_zero [simp]: "lp_add (Fin 0) x = x"
  by (cases x) auto

lemma lp_add_NegInf [simp]: "lp_add NegInf x = NegInf"
  by simp










lemma ex_last_predictions:
  "last_predictions_of (length [7::int]) (nat (beam_size ex_self)) (predictions ex_ls0) = Inr [0, 1]"
  by (simp add: last_predictions_of_def ex_ls0_def ex_self_simps)



section \<open>Reconstruction\<close>

lemma pick_shape:
  "length index \<le> length input \<Longrightarrow> map length (pick input index) = map length index"
  by (auto simp: pick_def list_eq_iff_nth_eq)

lemma gather_nth:
  assumes "gather input index = Inr out" and "b < length index" and "k < length (index ! b)"
  shows "out ! b ! k = input ! b ! (index ! b ! k)"
  using gather_Inr [OF assms(1)] assms(2,3) by (simp add: pick_nth)

lemma gather_shape:
  assumes "gather input index = Inr out"
  shows "map length out = map length index"
  using gather_Inr [OF assms] by (simp add: pick_shape)

lemma shape_eqD:
  assumes "map length xs = map length ys"
  shows "length xs = length ys" and "b < length ys \<Longrightarrow> length (xs ! b) = length (ys ! b)"
proof -
  show l: "length xs = length ys" using assms by (rule map_eq_imp_length_eq)
  show "b < length ys \<Longrightarrow> length (xs ! b) = length (ys ! b)"
    using assms l by (metis nth_map)
qed

lemma ancestor_shift:
  "ancestor bps b n (bps ! n ! b ! s) i = ancestor bps b (Suc n) s (Suc i)"
  by (induction i) simp_all

lemma walk_back_Inr:
  "walk_back preds bps n rec cur = Inr (rec', cur') \<Longrightarrow>
   map length cur' = map length cur \<and>
   length rec' = length rec + n \<and>
   (\<forall>j<length rec. rec' ! j = rec ! j) \<and>
   (\<forall>i<n. map length (rec' ! (length rec + i)) = map length cur \<and>
      (\<forall>b<length cur. \<forall>k<length (cur ! b).
         rec' ! (length rec + i) ! b ! k = preds ! (n - i) ! b ! ancestor bps b n (cur ! b ! k) i)) \<and>
   (\<forall>b<length cur. \<forall>k<length (cur ! b). cur' ! b ! k = ancestor bps b n (cur ! b ! k) n)"
proof (induction n arbitrary: rec cur)
  case 0
  then show ?case by simp
next
  case (Suc n)
  from Suc.prems obtain cp c1 where
    g1: "gather (preds ! Suc n) cur = Inr cp"
    and g2: "gather (bps ! n) cur = Inr c1"
    and w: "walk_back preds bps n (rec @ [cp]) c1 = Inr (rec', cur')"
    by (auto split: if_splits sum.splits)
  note ih = Suc.IH [OF w]
  note s1 = gather_shape [OF g1] and s2 = gather_shape [OF g2]
  note d2 = shape_eqD [OF s2]
  have c1: "c1 ! b ! k = bps ! n ! b ! (cur ! b ! k)"
    if "b < length cur" "k < length (cur ! b)" for b k
    using g2 that by (rule gather_nth)
  have shape: "map length cur' = map length cur" using ih s2 by simp
  have len: "length rec' = length rec + Suc n" using ih by simp
  have keep: "rec' ! j = rec ! j" if "j < length rec" for j
    using ih that by (simp add: nth_append)
  have first: "rec' ! length rec = cp"
    using ih by (simp add: nth_append)
  have new: "map length (rec' ! (length rec + i)) = map length cur \<and>
      (\<forall>b<length cur. \<forall>k<length (cur ! b).
         rec' ! (length rec + i) ! b ! k = preds ! (Suc n - i) ! b ! ancestor bps b (Suc n) (cur ! b ! k) i)"
    if "i < Suc n" for i
  proof (cases i)
    case 0
    show ?thesis
      unfolding 0 using first s1 gather_nth [OF g1] by simp
  next
    case (Suc i')
    then have i': "i' < n" using that by simp
    have idx: "length rec + i = length (rec @ [cp]) + i'" using Suc by simp
    have a: "map length (rec' ! (length rec + i)) = map length cur"
      unfolding idx using ih i' s2 by simp
    have "rec' ! (length rec + i) ! b ! k =
        preds ! (Suc n - i) ! b ! ancestor bps b (Suc n) (cur ! b ! k) i"
      if bk: "b < length cur" "k < length (cur ! b)" for b k
    proof -
      have "rec' ! (length (rec @ [cp]) + i') ! b ! k =
          preds ! (n - i') ! b ! ancestor bps b n (c1 ! b ! k) i'"
        using ih i' bk d2 by simp
      then show ?thesis
        unfolding idx Suc by (simp add: c1 [OF bk] ancestor_shift)
    qed
    with a show ?thesis by blast
  qed
  have last: "cur' ! b ! k = ancestor bps b (Suc n) (cur ! b ! k) (Suc n)"
    if bk: "b < length cur" "k < length (cur ! b)" for b k
  proof -
    have "cur' ! b ! k = ancestor bps b n (c1 ! b ! k) n"
      using ih bk d2 by simp
    then show ?thesis by (simp only: c1 [OF bk] ancestor_shift)
  qed
  show ?case using shape len keep new last by blast
qed

lemma cat2_Inr:
  assumes "cat2 (m # ms) = Inr out"
  shows "length out = length m"
    and "b < length m \<Longrightarrow> length (out ! b) = length (m ! b)"
    and "b < length m \<Longrightarrow> k < length (m ! b) \<Longrightarrow> out ! b ! k = map (\<lambda>m'. m' ! b ! k) (m # ms)"
    and "\<forall>m' \<in> set ms. map length m' = map length m"
proof -
  have g: "list_all (\<lambda>m'. map length m' = map length m) (m # ms)"
    and o: "out = map (\<lambda>b. map (\<lambda>k. map (\<lambda>m'. m' ! b ! k) (m # ms)) [0..<length (m ! b)])
                    [0..<length m]"
    using assms by (auto simp: cat2_def split: if_splits)
  show "length out = length m" using o by simp
  show "b < length m \<Longrightarrow> length (out ! b) = length (m ! b)" using o by simp
  show "b < length m \<Longrightarrow> k < length (m ! b) \<Longrightarrow> out ! b ! k = map (\<lambda>m'. m' ! b ! k) (m # ms)"
    using o by simp
  show "\<forall>m' \<in> set ms. map length m' = map length m"
    using g by (simp add: list_all_iff)
qed

lemma reconstruct_nth:
  assumes r: "reconstruct preds bps = Inr out"
    and len: "length preds = Suc (length bps)"
    and b: "b < length out" and k: "k < length (out ! b)" and t: "t < length preds"
  shows "length (out ! b ! k) = length preds \<and>
         out ! b ! k ! t = preds ! t ! b ! ancestor bps b (length bps) k (length bps - t)"
proof -
  let ?T = "length preds"
  have ne: "preds \<noteq> []" "bps \<noteq> []"
    using r by (auto simp: reconstruct_def split: if_splits)
  then obtain n where n: "length bps = Suc n" by (cases bps) auto
  have T: "?T - 2 = n" "?T = Suc (Suc n)" using len n by simp_all
  let ?cur0 = "last bps"
  have cur0: "?cur0 = bps ! n" using ne(2) n by (simp add: last_conv_nth)
  have lastp: "last preds = preds ! Suc n" using ne(1) T by (simp add: last_conv_nth)
  obtain rec' cur' final where
    w: "walk_back preds bps n [last preds] ?cur0 = Inr (rec', cur')"
    and g: "gather (preds ! 0) cur' = Inr final"
    and c: "cat2 (rev (rec' @ [final])) = Inr out"
    using r ne unfolding reconstruct_def T(1) by (auto split: sum.splits)
  note ww = walk_back_Inr [OF w]
  have lrec: "length rec' = Suc n" using ww by simp
  have c': "cat2 (final # rev rec') = Inr out" using c by simp
  note cc = cat2_Inr [OF c']
  have fs: "map length final = map length ?cur0"
    using gather_shape [OF g] ww by simp
  note fd = shape_eqD [OF fs] and cd = shape_eqD [OF conjunct1 [OF ww]]
  have b0: "b < length ?cur0" using b cc(1) fd(1) by simp
  then have bf: "b < length final" using fd(1) by simp
  have k0: "k < length (?cur0 ! b)" using k cc(2) [OF bf] fd(2) [OF b0] by simp
  then have kf: "k < length (final ! b)" using fd(2) [OF b0] by simp
  have o: "out ! b ! k = map (\<lambda>m'. m' ! b ! k) (final # rev rec')"
    using cc(3) [OF bf kf] .
  have l: "length (out ! b ! k) = ?T" using o lrec T by simp
  have shift: "ancestor bps b n (?cur0 ! b ! k) i = ancestor bps b (length bps) k (Suc i)" for i
    unfolding cur0 n by (rule ancestor_shift)
  have "out ! b ! k ! t = preds ! t ! b ! ancestor bps b (length bps) k (length bps - t)"
  proof (cases t)
    case 0
    have "out ! b ! k ! t = final ! b ! k" using o 0 by simp
    also have "\<dots> = preds ! 0 ! b ! (cur' ! b ! k)"
      using g b0 k0 cd by (intro gather_nth) simp_all
    also have "cur' ! b ! k = ancestor bps b n (?cur0 ! b ! k) n"
      using ww b0 k0 by simp
    also have "\<dots> = ancestor bps b (length bps) k (length bps - t)"
      unfolding shift using 0 n by simp
    finally show ?thesis using 0 by simp
  next
    case (Suc t')
    then have t': "t' \<le> n" using t T by simp
    let ?j = "n - t'"
    have "out ! b ! k ! t = rev rec' ! t' ! b ! k"
      using o Suc t' lrec by simp
    also have "rev rec' ! t' = rec' ! ?j"
      using t' lrec by (simp add: rev_nth)
    finally have e: "out ! b ! k ! t = rec' ! ?j ! b ! k" .
    show ?thesis
    proof (cases ?j)
      case 0
      then have tt: "t = Suc n" using Suc t' by simp
      have "rec' ! 0 = last preds" using ww by simp
      then show ?thesis using e 0 lastp tt n by simp
    next
      case (Suc i)
      then have i: "i < n" by simp
      have "rec' ! ?j ! b ! k = preds ! (n - i) ! b ! ancestor bps b n (?cur0 ! b ! k) i"
        using ww i b0 k0 unfolding Suc by simp
      also have "n - i = t" using Suc \<open>t = Suc t'\<close> t' by simp
      also have "ancestor bps b n (?cur0 ! b ! k) i = ancestor bps b (length bps) k (Suc i)"
        by (rule shift)
      also have "Suc i = length bps - t" using Suc \<open>t = Suc t'\<close> t' n by simp
      finally show ?thesis using e by simp
    qed
  qed
  with l show ?thesis by simp
qed

lemma ex_reconstruct:
  "reconstruct (predictions ex_ls1) (backpointers ex_ls1) = Inr [[[0, 0], [1, 0]]]"
  unfolding ex_ls1_def by code_simp

section \<open>The whole search\<close>

lemma search_Inr:
  assumes s: "search tk self sp a step fs h = Inr ((out, lps), self', hf, tr)"
  obtains V ae ls0 ls where
    "initialise tk self sp a step fs h = Inr (V, ae, ls0)"
    "run_loop tk self (length sp) V ae step (nat (max_steps self - 1)) ls0 = Inr ls"
    "reconstruct (predictions ls) (backpointers ls) = Inr out"
    "lps = last_log_probabilities ls" "self' = self" "hf = store ls" "tr = trace ls"
proof -
  obtain V ae ls0 where i: "initialise tk self sp a step fs h = Inr (V, ae, ls0)"
    using s by (cases "initialise tk self sp a step fs h") (auto simp: search_def)
  obtain ls where r: "run_loop tk self (length sp) V ae step (nat (max_steps self - 1)) ls0 = Inr ls"
    using s
    by (cases "run_loop tk self (length sp) V ae step (nat (max_steps self - 1)) ls0")
      (auto simp: search_def i)
  have "reconstruct (predictions ls) (backpointers ls) = Inr out \<and>
        lps = last_log_probabilities ls \<and> self' = self \<and> hf = store ls \<and> tr = trace ls"
    using s
    by (cases "reconstruct (predictions ls) (backpointers ls)") (auto simp: search_def i r)
  then show thesis using that [OF i r] by blast
qed

lemma search_eq:
  "initialise tk self sp a step fs h = Inr (V, ae, ls0) \<Longrightarrow>
   run_loop tk self (length sp) V ae step (nat (max_steps self - 1)) ls0 = Inr ls \<Longrightarrow>
   search tk self sp a step fs h =
     (case reconstruct (predictions ls) (backpointers ls) of
        Inl e \<Rightarrow> Inl (e, trace ls)
      | Inr out \<Rightarrow> Inr ((out, last_log_probabilities ls), self, store ls, trace ls))"
  by (simp add: search_def)

lemma ex_last_predictions_1:
  "last_predictions_of (length [7::int]) (nat (beam_size ex_self)) (predictions ex_ls1) = Inr [0, 0]"
  by (simp add: last_predictions_of_def ex_ls1_def ex_self_simps)

lemma ex_run_loop_2:
  "run_loop topk ex_self (length [7::int]) 3 ex_after_end ex_step (nat (max_steps ex_self - 1)) ex_ls0
     = Inr ex_ls1"
proof -
  have n: "nat (max_steps ex_self - 1) = Suc (Suc 0)" by (simp add: ex_self_simps)
  have lb: "loop_body topk ex_self (length [7::int]) 3 ex_after_end ex_step ex_ls0 [0, 1] = Inr ex_ls1"
    using ex_loop_body by simp
  show ?thesis
    unfolding n using ex_last_predictions ex_last_predictions_1 lb
    by (simp add: ex_self_simps)
qed

lemma ex_search:
  "search topk ex_self [7] 0 ex_step None ex_store =
     Inr (([[[0, 0], [1, 0]]], [[Fin (- 1), Fin (- 3)]]), ex_self, store ex_ls1, trace ex_ls1)"
  unfolding search_eq [OF ex_initialise ex_run_loop_2] ex_reconstruct
  by (simp add: ex_ls1_def)



section \<open>Which exception where\<close>

lemma tensor_topk_Inl: "tensor_topk tk k c m = Inl e \<Longrightarrow> e = RuntimeError"
  by (auto simp: tensor_topk_def Let_def split: if_splits)

lemma log_probs_after_end_Inl: "log_probs_after_end self n V = Inl e \<Longrightarrow> e = IndexError"
  by (auto simp: log_probs_after_end_def Let_def split: if_splits)

lemma map_items_Inl:
  "map_items f d = Inl e \<Longrightarrow> \<exists>v. f v = Inl e"
  by (induction f d rule: map_items.induct) (auto split: sum.splits)

lemma expand_state_tensor_Inl: "expand_state_tensor B beam t = Inl e \<Longrightarrow> e = RuntimeError"
  by (auto simp: expand_state_tensor_def split: if_splits)

lemma select_ancestors_Inl: "select_ancestors B beam bp t = Inl e \<Longrightarrow> e = RuntimeError"
  by (auto simp: select_ancestors_def split: if_splits)

lemma gather_Inl: "gather input index = Inl e \<Longrightarrow> e = RuntimeError"
  by (auto simp: gather_def split: if_splits)

lemma candidates_Inl: "candidates tk self B V ae lastp last_lp clp = Inl e \<Longrightarrow> e = RuntimeError"
  by (auto simp: candidates_def Let_def split: if_splits sum.splits dest: tensor_topk_Inl)

lemma prune_Inl: "prune tk self rs rc = Inl e \<Longrightarrow> e = RuntimeError"
  by (auto simp: prune_def split: sum.splits dest: tensor_topk_Inl gather_Inl)

lemma advance_Inl: "advance tk self B V ae lastp last_lp clp = Inl e \<Longrightarrow> e = RuntimeError"
  by (auto simp: advance_def split: sum.splits dest: candidates_Inl prune_Inl)

lemma loop_body_Inl:
  assumes "loop_body tk self B V ae step ls lastp = Inl (e, tr)"
  shows "e = RuntimeError"
proof -
  obtain clp st h1 where s: "step lastp (state ls) (store ls) = ((clp, st), h1)"
    by (metis surj_pair)
  note eq = assms [unfolded loop_body_eq [where step = step and lastp = lastp and ls = ls, OF s]]
  show ?thesis
  proof (cases "advance tk self B V ae lastp (last_log_probabilities ls) clp")
    case (Inl e')
    then show ?thesis using eq advance_Inl [OF Inl] by simp
  next
    case (Inr r)
    obtain cls lps bp where r: "r = (cls, lps, bp)" by (cases r) auto
    show ?thesis
    proof (cases "map_items (select_ancestors B (nat (beam_size self)) bp) (h1 st)")
      case (Inl e')
      then have "e' = RuntimeError"
        using map_items_Inl select_ancestors_Inl by blast
      then show ?thesis using eq Inr r Inl by simp
    next
      case (Inr d)
      then show ?thesis using eq \<open>advance tk self B V ae lastp (last_log_probabilities ls) clp = Inr r\<close> r
        by simp
    qed
  qed
qed

lemma last_predictions_of_Inl:
  "last_predictions_of B beam preds = Inl e \<Longrightarrow> e \<noteq> ConfigurationError"
  by (auto simp: last_predictions_of_def split: if_splits)

lemma run_loop_Inl:
  "run_loop tk self B V ae step n ls = Inl (e, tr) \<Longrightarrow> e \<noteq> ConfigurationError"
proof (induction n arbitrary: ls)
  case 0
  then show ?case by simp
next
  case (Suc n)
  show ?case
  proof (cases "last_predictions_of B (nat (beam_size self)) (predictions ls)")
    case (Inl e')
    then show ?thesis using Suc.prems last_predictions_of_Inl [OF Inl] by simp
  next
    case (Inr lastp)
    show ?thesis
    proof (cases "list_all (\<lambda>tok. tok = end_index self) lastp")
      case True
      then show ?thesis using Suc.prems Inr by simp
    next
      case False
      show ?thesis
      proof (cases "loop_body tk self B V ae step ls lastp")
        case (Inl x)
        then show ?thesis using Suc.prems Inr False loop_body_Inl [of tk self B V ae step ls lastp]
          by (cases x) auto
      next
        case (Inr l')
        then show ?thesis
          using Suc.prems \<open>last_predictions_of B (nat (beam_size self)) (predictions ls) = Inr lastp\<close>
            False Suc.IH [of l'] by simp
      qed
    qed
  qed
qed

lemma walk_back_Inl:
  "walk_back preds bps n rec cur = Inl e \<Longrightarrow> e \<noteq> ConfigurationError"
  by (induction preds bps n rec cur rule: walk_back.induct)
    (auto split: if_splits sum.splits dest: gather_Inl)

lemma cat2_Inl: "cat2 ms = Inl e \<Longrightarrow> e = RuntimeError"
  by (auto simp: cat2_def split: list.splits if_splits)

lemma reconstruct_Inl: "reconstruct preds bps = Inl e \<Longrightarrow> e \<noteq> ConfigurationError"
  by (auto simp: reconstruct_def split: if_splits sum.splits
      dest: walk_back_Inl gather_Inl cat2_Inl)

lemma initialise_Inl:
  assumes wf: "(case fs of None \<Rightarrow> (Step, step) | Some g \<Rightarrow> (FirstStep, g)) = (who, f)"
    and c: "f sp a h = ((sc, st), h1)"
    and i: "initialise tk self sp a step fs h = Inl (e, tr)"
  shows "tr = [(who, sp, sc)]"
    and "e = ConfigurationError \<longleftrightarrow> int (num_cols sc) < per_node_beam_size self"
proof -
  note eq = i [unfolded initialise_eq [where f = f and sp = sp and a = a and h = h, OF wf c]]
  have me: "e' = RuntimeError"
    if "map_items (expand_state_tensor (length sp) (nat (beam_size self))) (h1 st) = Inl e'" for e'
    using map_items_Inl [OF that] expand_state_tensor_Inl by blast
  show "tr = [(who, sp, sc)]"
    using eq by (auto split: if_splits sum.splits)
  show "e = ConfigurationError \<longleftrightarrow> int (num_cols sc) < per_node_beam_size self"
    using eq by (auto split: if_splits sum.splits dest: tensor_topk_Inl log_probs_after_end_Inl me)
qed

section \<open>The configuration error\<close>

text \<open>
  Claim C7, as the code has it. \<open>search\<close> raises the configuration error exactly
  when \<open>per_node_beam_size\<close> exceeds the vocabulary size, the second dimension of
  the scores that the first scoring call returned. The error is raised after
  that one call (of \<open>first_step\<close>, or of \<open>step\<close> when no \<open>first_step\<close> is given)
  and before any other call of a scoring function.
\<close>

theorem configuration_error_iff:
  assumes wf: "(case first_step of None \<Rightarrow> (Step, step) | Some g \<Rightarrow> (FirstStep, g)) = (who, f)"
    and c: "f start_predictions start_state h = ((sc, st), h1)"
  shows "((\<exists>tr. search tk self start_predictions start_state step first_step h
                  = Inl (ConfigurationError, tr))
            \<longleftrightarrow> int (num_cols sc) < per_node_beam_size self) \<and>
         (\<forall>tr. search tk self start_predictions start_state step first_step h
                  = Inl (ConfigurationError, tr)
            \<longrightarrow> tr = [(who, start_predictions, sc)])"
proof -
  let ?s = "search tk self start_predictions start_state step first_step h"
  let ?i = "initialise tk self start_predictions start_state step first_step h"
  have from_init: "?i = Inl (ConfigurationError, tr)" if "?s = Inl (ConfigurationError, tr)" for tr
  proof (cases ?i)
    case (Inl x)
    then show ?thesis using that by (simp add: search_def)
  next
    case (Inr r)
    obtain V ae ls0 where r: "r = (V, ae, ls0)" by (cases r) auto
    show ?thesis
    proof (cases "run_loop tk self (length start_predictions) V ae step (nat (max_steps self - 1)) ls0")
      case (Inl x)
      then have "x = (ConfigurationError, tr)" using that Inr r by (simp add: search_def)
      then show ?thesis using run_loop_Inl Inl by blast
    next
      case (Inr ls)
      note eq = that [unfolded search_eq [OF \<open>?i = Inr r\<close> [unfolded r] Inr]]
      then have "reconstruct (predictions ls) (backpointers ls) = Inl ConfigurationError"
        by (auto split: sum.splits)
      then show ?thesis using reconstruct_Inl by blast
    qed
  qed
  have a: "int (num_cols sc) < per_node_beam_size self \<and> tr = [(who, start_predictions, sc)]"
    if "?s = Inl (ConfigurationError, tr)" for tr
    using initialise_Inl [OF wf c from_init [OF that]] by simp
  have b: "?s = Inl (ConfigurationError, [(who, start_predictions, sc)])"
    if "int (num_cols sc) < per_node_beam_size self"
    using that
    by (simp add: search_def
        initialise_eq [where f = f and sp = start_predictions and a = start_state and h = h, OF wf c])
  show ?thesis using a b by blast
qed

lemma wide_self_simps:
  "end_index wide_self = 0" "max_steps wide_self = 3" "beam_size wide_self = 2"
  "per_node_beam_size wide_self = 4"
  by (simp_all add: wide_self_def BeamSearch_init_def)

lemma ex_first_call:
  "(case None of None \<Rightarrow> (Step, ex_step) | Some g \<Rightarrow> (FirstStep, g)) = (Step, ex_step)"
  "ex_step [7] 0 ex_store = ((ex_scores 1, 0), ex_store)"
  by (simp_all add: ex_step_def)

theorem configuration_error_after_a_step_call_counterexample:
  "search topk wide_self [7] 0 ex_step None ex_store =
     Inl (ConfigurationError, [(Step, [7], ex_scores 1)])"
  by (simp add: search_def initialise_eq [where f = ex_step, OF ex_first_call]
      wide_self_simps ex_scores_def)

theorem configuration_error_iff_witness:
  "(case None of None \<Rightarrow> (Step, ex_step) | Some g \<Rightarrow> (FirstStep, g)) = (Step, ex_step) \<and>
   ex_step [7] 0 ex_store = ((ex_scores 1, 0), ex_store) \<and>
   int (num_cols (ex_scores 1)) < per_node_beam_size wide_self \<and>
   (\<exists>tr. search topk wide_self [7] 0 ex_step None ex_store = Inl (ConfigurationError, tr))"
proof -
  have l: "int (num_cols (ex_scores 1)) < per_node_beam_size wide_self"
    by (simp add: ex_scores_def wide_self_simps)
  note w = configuration_error_iff [where tk = topk and self = wide_self and f = ex_step,
      OF ex_first_call]
  have "\<exists>tr. search topk wide_self [7] 0 ex_step None ex_store = Inl (ConfigurationError, tr)"
    using conjunct1 [OF w] l by blast
  then show ?thesis using ex_first_call l by blast
qed

section \<open>Searches that record no backpointer\<close>

lemma one_self_simps:
  "end_index one_self = 0" "max_steps one_self = 3" "beam_size one_self = 1"
  "per_node_beam_size one_self = 1"
  by (simp_all add: one_self_def BeamSearch_init_def)

lemma one_first_topk:
  "tensor_topk topk 1 3 [[Fin (- 1), Fin (- 2), Fin (- 3)]] = Inr ([[Fin (- 1)]], [[0]])"
  by code_simp

lemma one_log_probs_after_end:
  "log_probs_after_end one_self (1 * 1) 3 = Inr [[Fin 0, NegInf, NegInf]]"
  by code_simp

lemma one_expand: "map_items (expand_state_tensor 1 1) [(''h'', [5::nat])] = Inr [(''h'', [5])]"
  by code_simp

lemma one_initialise:
  "initialise topk one_self [7] 0 ex_step None ex_store = Inr (3, [[Fin 0, NegInf, NegInf]], one_ls0)"
  unfolding initialise_eq [where f = ex_step, OF ex_first_call]
  using one_first_topk one_log_probs_after_end one_expand
  by (simp add: one_self_simps ex_scores_def one_ls0_def ex_store_def)

lemma one_all_end:
  "list_all (\<lambda>tok. tok = end_index one_self) (concat (last (predictions one_ls0)))"
  by (simp add: one_ls0_def one_self_simps)

lemma reconstruct_no_backpointer: "reconstruct preds [] = Inl IndexError"
  by (simp add: reconstruct_def)

lemma search_stops_at_once:
  assumes i: "initialise tk self sp a step fs h = Inr (V, ae, ls0)"
    and c: "max_steps self \<le> 1 \<or>
            list_all (\<lambda>tok. tok = end_index self) (concat (last (predictions ls0)))"
  shows "\<exists>e. search tk self sp a step fs h = Inl (e, trace ls0)"
    and "max_steps self \<le> 1 \<or>
         length (concat (last (predictions ls0))) = length sp * nat (beam_size self) \<Longrightarrow>
         search tk self sp a step fs h = Inl (IndexError, trace ls0)"
proof -
  let ?m = "nat (max_steps self - 1)"
  let ?run = "run_loop tk self (length sp) V ae step ?m ls0"
  from i have p: "predictions ls0 \<noteq> []" and b: "backpointers ls0 = []"
    by (rule initialise_Inr, simp)+
  have stay: "search tk self sp a step fs h = Inl (IndexError, trace ls0)" if "?run = Inr ls0"
    unfolding search_eq [OF i that] b by (simp add: reconstruct_no_backpointer)
  have zero: "?run = Inr ls0" if "?m = 0" using that by simp
  have ended: "?run = Inr ls0"
    if "list_all (\<lambda>tok. tok = end_index self) (concat (last (predictions ls0)))"
      "length (concat (last (predictions ls0))) = length sp * nat (beam_size self)"
    using that p by (cases ?m) (simp_all add: last_predictions_of_def)
  have broken: "?run = Inl (RuntimeError, trace ls0)"
    if "?m \<noteq> 0"
      "length (concat (last (predictions ls0))) \<noteq> length sp * nat (beam_size self)"
    using that p by (cases ?m) (simp_all add: last_predictions_of_def)
  show "max_steps self \<le> 1 \<or>
         length (concat (last (predictions ls0))) = length sp * nat (beam_size self) \<Longrightarrow>
         search tk self sp a step fs h = Inl (IndexError, trace ls0)"
    using c stay zero ended by (cases "max_steps self \<le> 1") auto
  show "\<exists>e. search tk self sp a step fs h = Inl (e, trace ls0)"
  proof (cases "?m = 0 \<or> length (concat (last (predictions ls0))) = length sp * nat (beam_size self)")
    case True
    then have "?run = Inr ls0" using c zero ended by (cases "max_steps self \<le> 1") auto
    then show ?thesis using stay by blast
  next
    case False
    then have "?run = Inl (RuntimeError, trace ls0)" using broken by blast
    then show ?thesis using i by (simp add: search_def)
  qed
qed

text \<open>
  Claim C8. When \<open>max_steps\<close> is 1 (or less), or when every token selected at
  the first step is the end token, \<open>search\<close> does not return: the main loop
  records no backpointer, and the reconstruction fails with an \<open>IndexError\<close> on
  the empty list of backpointers (unless the first scores had the wrong number
  of rows, which fails before). A search that returns has run the loop body at
  least once and recorded a backpointer.
\<close>

theorem no_result_without_backpointer:
  assumes i: "initialise tk self start_predictions start_state step first_step h
                = Inr (V, after_end, ls0)"
  shows "(max_steps self \<le> 1 \<or>
          list_all (\<lambda>tok. tok = end_index self) (concat (last (predictions ls0))) \<longrightarrow>
            backpointers ls0 = [] \<and>
            (\<exists>e. search tk self start_predictions start_state step first_step h
                    = Inl (e, trace ls0)) \<and>
            (max_steps self \<le> 1 \<or>
             length (concat (last (predictions ls0)))
               = length start_predictions * nat (beam_size self) \<longrightarrow>
               search tk self start_predictions start_state step first_step h
                 = Inl (IndexError, trace ls0))) \<and>
         (\<forall>r. search tk self start_predictions start_state step first_step h = Inr r \<longrightarrow>
            2 \<le> max_steps self \<and>
            \<not> list_all (\<lambda>tok. tok = end_index self) (concat (last (predictions ls0))) \<and>
            (\<exists>ls. run_loop tk self (length start_predictions) V after_end step
                     (nat (max_steps self - 1)) ls0 = Inr ls \<and>
                  backpointers ls \<noteq> [] \<and> 2 \<le> length (predictions ls)))"
proof -
  let ?s = "search tk self start_predictions start_state step first_step h"
  let ?c = "max_steps self \<le> 1 \<or>
          list_all (\<lambda>tok. tok = end_index self) (concat (last (predictions ls0)))"
  from i have b: "backpointers ls0 = []" by (rule initialise_Inr)
  note st = search_stops_at_once [OF i]
  have first: "?c \<longrightarrow> backpointers ls0 = [] \<and> (\<exists>e. ?s = Inl (e, trace ls0)) \<and>
      (max_steps self \<le> 1 \<or>
       length (concat (last (predictions ls0))) = length start_predictions * nat (beam_size self) \<longrightarrow>
       ?s = Inl (IndexError, trace ls0))"
    using b st by blast
  have second: "2 \<le> max_steps self \<and>
      \<not> list_all (\<lambda>tok. tok = end_index self) (concat (last (predictions ls0))) \<and>
      (\<exists>ls. run_loop tk self (length start_predictions) V after_end step
               (nat (max_steps self - 1)) ls0 = Inr ls \<and>
             backpointers ls \<noteq> [] \<and> 2 \<le> length (predictions ls))"
    if r: "?s = Inr r" for r
  proof -
    have nc: "\<not> ?c" using st(1) r by auto
    obtain out lps self' hf tr where r': "r = ((out, lps), self', hf, tr)"
      by (cases r) auto
    from r [unfolded r'] obtain V' ae' ls0' ls where
      i': "initialise tk self start_predictions start_state step first_step h = Inr (V', ae', ls0')"
      and run: "run_loop tk self (length start_predictions) V' ae' step
                  (nat (max_steps self - 1)) ls0' = Inr ls"
      and rc: "reconstruct (predictions ls) (backpointers ls) = Inr out"
      by (rule search_Inr)
    have same: "V' = V" "ae' = after_end" "ls0' = ls0" using i i' by simp_all
    have ne: "backpointers ls \<noteq> []" "predictions ls \<noteq> []"
      using rc by (auto simp: reconstruct_def split: if_splits)
    have "length (predictions ls) = length (predictions ls0) + length (backpointers ls)"
      using run [unfolded same]
    proof (rule run_loop_induct)
      show "length (predictions ls0) = length (predictions ls0) + length (backpointers ls0)"
        using b by simp
    next
      fix l lastp l'
      assume "length (predictions l) = length (predictions ls0) + length (backpointers l)"
        and "loop_body tk self (length start_predictions) V after_end step l lastp = Inr l'"
      then show "length (predictions l') = length (predictions ls0) + length (backpointers l')"
        by (elim loop_body_Inr) simp
    qed
    moreover from i have "predictions ls0 \<noteq> []" by (rule initialise_Inr) simp
    ultimately have "2 \<le> length (predictions ls)"
      using ne(1) by (cases "predictions ls0"; cases "backpointers ls") simp_all
    then show ?thesis using nc run [unfolded same] ne(1) by auto
  qed
  show ?thesis using first second by blast
qed

theorem no_result_without_backpointer_witness:
  "initialise topk one_self [7] 0 ex_step None ex_store = Inr (3, [[Fin 0, NegInf, NegInf]], one_ls0) \<and>
   list_all (\<lambda>tok. tok = end_index one_self) (concat (last (predictions one_ls0))) \<and>
   length (concat (last (predictions one_ls0))) = length [7::int] * nat (beam_size one_self) \<and>
   search topk one_self [7] 0 ex_step None ex_store = Inl (IndexError, trace one_ls0) \<and>
   initialise topk ex_self [7] 0 ex_step None ex_store = Inr (3, ex_after_end, ex_ls0) \<and>
   search topk ex_self [7] 0 ex_step None ex_store =
     Inr (([[[0, 0], [1, 0]]], [[Fin (- 1), Fin (- 3)]]), ex_self, store ex_ls1, trace ex_ls1) \<and>
   2 \<le> max_steps ex_self"
proof -
  have l: "length (concat (last (predictions one_ls0))) = length [7::int] * nat (beam_size one_self)"
    by (simp add: one_ls0_def one_self_simps)
  note w1 = no_result_without_backpointer [OF one_initialise]
  have s1: "search topk one_self [7] 0 ex_step None ex_store = Inl (IndexError, trace one_ls0)"
    using conjunct1 [OF w1] one_all_end l by blast
  note w2 = no_result_without_backpointer [OF ex_initialise]
  have s2: "2 \<le> max_steps ex_self"
    using conjunct2 [OF w2] ex_search by blast
  show ?thesis by (intro conjI one_initialise one_all_end l s1 ex_initialise ex_search s2)
qed

section \<open>Stopping early\<close>

text \<open>
  Claim C4, at the first step. With a beam of one and scores that prefer the
  end token, every hypothesis has the end token after step 0. The claim asks
  for predictions of length 1 and no further scoring call; the search makes no
  further call, but raises an \<open>IndexError\<close> instead of returning.
\<close>

theorem early_stop_at_first_step_raises:
  "initialise topk one_self [7] 0 ex_step None ex_store = Inr (3, [[Fin 0, NegInf, NegInf]], one_ls0) \<and>
   predictions one_ls0 = [[[0]]] \<and> end_index one_self = 0 \<and> 1 \<le> max_steps one_self \<and>
   search topk one_self [7] 0 ex_step None ex_store = Inl (IndexError, [(Step, [7], ex_scores 1)])"
proof -
  have "search topk one_self [7] 0 ex_step None ex_store = Inl (IndexError, trace one_ls0)"
    using one_all_end
    by (intro search_stops_at_once(2) [OF one_initialise]) (simp_all add: one_ls0_def one_self_simps)
  then show ?thesis using one_initialise by (simp add: one_ls0_def one_self_simps)
qed

section \<open>Effects on the caller's state\<close>

text \<open>
  Claim C10, as the code has it. \<open>search\<close> assigns no field of the \<open>BeamSearch\<close>
  object. It writes the dictionary that the last scoring call returned, and no
  other: the caller's \<open>start_state\<close> mapping is unchanged after \<open>search\<close>
  returns whenever the scoring functions leave it unchanged and return another
  mapping than it as the new state.
\<close>

theorem start_state_unchanged:
  assumes wf: "(case first_step of None \<Rightarrow> (Step, step) | Some g \<Rightarrow> (FirstStep, g)) = (who, f)"
    and c: "f start_predictions start_state h = ((sc, st), h1)"
    and fresh: "st \<noteq> start_state" "h1 start_state = h start_state"
    and la: "leaves_alone start_state step"
    and s: "search tk self start_predictions start_state step first_step h
              = Inr (result, self', hf, tr)"
  shows "hf start_state = h start_state \<and> self' = self"
proof -
  obtain out lps where res: "result = (out, lps)" by (cases result) auto
  from s [unfolded res] obtain V ae ls0 ls where
    i: "initialise tk self start_predictions start_state step first_step h = Inr (V, ae, ls0)"
    and r: "run_loop tk self (length start_predictions) V ae step (nat (max_steps self - 1)) ls0
              = Inr ls"
    and same: "self' = self" and hf: "hf = store ls"
    by (rule search_Inr)
  let ?P = "\<lambda>l. state l \<noteq> start_state \<and> store l start_state = h start_state"
  have "?P ls" using r
  proof (rule run_loop_induct)
    from i obtain who' f' sc' st' h1' d where
      "(case first_step of None \<Rightarrow> (Step, step) | Some g \<Rightarrow> (FirstStep, g)) = (who', f')"
      "f' start_predictions start_state h = ((sc', st'), h1')"
      "state ls0 = st'" "store ls0 = h1'(st' := d)"
      by (rule initialise_Inr)
    then show "?P ls0" using wf c fresh by simp
  next
    fix l lastp l'
    assume p: "?P l"
      and lb: "loop_body tk self (length start_predictions) V ae step l lastp = Inr l'"
    from lb obtain clp st' h1' d where
      sc: "step lastp (state l) (store l) = ((clp, st'), h1')"
      and st: "state l' = st'" and h: "store l' = h1'(st' := d)"
      by (rule loop_body_Inr)
    have "st' \<noteq> start_state \<and> h1' start_state = store l start_state"
      using la p sc unfolding leaves_alone_def by (metis fst_conv snd_conv)
    then show "?P l'" using p st h by simp
  qed
  then show ?thesis using same hf by simp
qed

lemma fresh_initialise:
  "initialise topk ex_self [7] 0 fresh_step None ex_store = Inr (3, ex_after_end, fresh_ls0)"
proof -
  have f: "(case None of None \<Rightarrow> (Step, fresh_step) | Some g \<Rightarrow> (FirstStep, g)) = (Step, fresh_step)"
    by simp
  have c: "fresh_step [7] 0 ex_store = ((ex_scores 1, Suc 0), ex_store(Suc 0 := [(''h'', [5])]))"
    by (simp add: fresh_step_def ex_store_def)
  show ?thesis
    unfolding initialise_eq [where f = fresh_step, OF f c]
    using ex_first_topk ex_log_probs_after_end ex_expand
    by (simp add: ex_self_simps ex_scores_def fresh_ls0_def)
qed

lemma fresh_loop_body:
  "loop_body topk ex_self 1 3 ex_after_end fresh_step fresh_ls0 [0, 1] = Inr fresh_ls1"
proof -
  have c: "fresh_step [0, 1] (state fresh_ls0) (store fresh_ls0) =
      ((ex_scores 2, Suc (Suc 0)), (store fresh_ls0)(Suc (Suc 0) := [(''h'', [5, 5])]))"
    by (simp add: fresh_step_def fresh_ls0_def numeral_2_eq_2)
  show ?thesis
    unfolding loop_body_eq [where step = fresh_step, OF c]
    using ex_advance ex_select
    by (simp add: ex_self_simps fresh_ls0_def fresh_ls1_def)
qed

lemma fresh_run_loop:
  "run_loop topk ex_self (length [7::int]) 3 ex_after_end fresh_step (nat (max_steps ex_self - 1))
     fresh_ls0 = Inr fresh_ls1"
proof -
  have n: "nat (max_steps ex_self - 1) = Suc (Suc 0)" by (simp add: ex_self_simps)
  have l0: "last_predictions_of (length [7::int]) (nat (beam_size ex_self)) (predictions fresh_ls0)
      = Inr [0, 1]"
    by (simp add: last_predictions_of_def fresh_ls0_def ex_self_simps)
  have l1: "last_predictions_of (length [7::int]) (nat (beam_size ex_self)) (predictions fresh_ls1)
      = Inr [0, 0]"
    by (simp add: last_predictions_of_def fresh_ls1_def ex_self_simps)
  have lb: "loop_body topk ex_self (length [7::int]) 3 ex_after_end fresh_step fresh_ls0 [0, 1]
      = Inr fresh_ls1"
    using fresh_loop_body by simp
  show ?thesis
    unfolding n using l0 l1 lb by (simp add: ex_self_simps)
qed

lemma fresh_reconstruct:
  "reconstruct (predictions fresh_ls1) (backpointers fresh_ls1) = Inr [[[0, 0], [1, 0]]]"
  unfolding fresh_ls1_def by code_simp

lemma fresh_search:
  "search topk ex_self [7] 0 fresh_step None ex_store =
     Inr (([[[0, 0], [1, 0]]], [[Fin (- 1), Fin (- 3)]]), ex_self, store fresh_ls1, trace fresh_ls1)"
  unfolding search_eq [OF fresh_initialise fresh_run_loop] fresh_reconstruct
  by (simp add: fresh_ls1_def)

lemma fresh_leaves_alone: "leaves_alone 0 fresh_step"
  by (simp add: leaves_alone_def fresh_step_def)

theorem start_state_unchanged_witness:
  "(case None of None \<Rightarrow> (Step, fresh_step) | Some g \<Rightarrow> (FirstStep, g)) = (Step, fresh_step) \<and>
   fresh_step [7] 0 ex_store = ((ex_scores 1, Suc 0), ex_store(Suc 0 := [(''h'', [5])])) \<and>
   Suc 0 \<noteq> 0 \<and> (ex_store(Suc 0 := [(''h'', [5])])) 0 = ex_store 0 \<and>
   leaves_alone 0 fresh_step \<and>
   search topk ex_self [7] 0 fresh_step None ex_store =
     Inr (([[[0, 0], [1, 0]]], [[Fin (- 1), Fin (- 3)]]), ex_self, store fresh_ls1, trace fresh_ls1) \<and>
   store fresh_ls1 0 = ex_store 0"
proof -
  have f: "(case None of None \<Rightarrow> (Step, fresh_step) | Some g \<Rightarrow> (FirstStep, g)) = (Step, fresh_step)"
    by simp
  have c: "fresh_step [7] 0 ex_store = ((ex_scores 1, Suc 0), ex_store(Suc 0 := [(''h'', [5])]))"
    by (simp add: fresh_step_def ex_store_def)
  have n: "Suc 0 \<noteq> 0" by simp
  have k: "(ex_store(Suc 0 := [(''h'', [5])])) 0 = ex_store 0" by simp
  note w = start_state_unchanged [where f = fresh_step, OF f c n k fresh_leaves_alone fresh_search]
  show ?thesis by (intro conjI f c n k fresh_leaves_alone fresh_search conjunct1 [OF w])
qed

theorem start_state_changed_counterexample:
  "search topk ex_self [7] 0 ex_step None ex_store =
     Inr (([[[0, 0], [1, 0]]], [[Fin (- 1), Fin (- 3)]]), ex_self, store ex_ls1, trace ex_ls1) \<and>
   snd (fst (ex_step [7] 0 ex_store)) = 0 \<and>
   ex_store 0 = [(''h'', [5])] \<and>
   store ex_ls1 0 = [(''h'', [5, 5])]"
  using ex_search by (simp add: ex_step_def ex_store_def ex_ls1_def)

section \<open>Determinism\<close>

lemma deterministicD:
  assumes "deterministic f" and "h a = h' a'"
    and "f toks a h = ((sc, st), h1)" and "f toks a' h' = ((sc', st'), h1')"
  shows "sc = sc'" and "h1 st = h1' st'"
  using assms unfolding deterministic_def by (metis fst_conv snd_conv)+

lemma initialise_sim:
  assumes d: "case fs of None \<Rightarrow> deterministic step | Some g \<Rightarrow> deterministic g"
    and eq: "h a = h' a'"
  shows "rel_sum (=) (\<lambda>(V, ae, l) (V', ae', l'). V = V' \<and> ae = ae' \<and> same_view l l')
           (initialise tk self sp a step fs h) (initialise tk self sp a' step fs h')"
proof -
  obtain who f where wf: "(case fs of None \<Rightarrow> (Step, step) | Some g \<Rightarrow> (FirstStep, g)) = (who, f)"
    by (metis surj_pair)
  have df: "deterministic f" using d wf by (cases fs) auto
  obtain sc st h1 where c: "f sp a h = ((sc, st), h1)" by (metis surj_pair)
  obtain sc' st' h1' where c': "f sp a' h' = ((sc', st'), h1')" by (metis surj_pair)
  note dd = deterministicD [OF df eq c c']
  show ?thesis
    unfolding initialise_eq [where f = f and sp = sp and a = a and h = h, OF wf c]
      initialise_eq [where f = f and sp = sp and a = a' and h = h', OF wf c']
    using dd by (auto simp: same_view_def split: sum.splits)
qed

lemma loop_body_sim:
  assumes d: "deterministic step" and v: "same_view l l'"
  shows "rel_sum (=) same_view
           (loop_body tk self B V ae step l lastp) (loop_body tk self B V ae step l' lastp)"
proof -
  obtain clp st h1 where c: "step lastp (state l) (store l) = ((clp, st), h1)"
    by (metis surj_pair)
  obtain clp' st' h1' where c': "step lastp (state l') (store l') = ((clp', st'), h1')"
    by (metis surj_pair)
  have eq: "store l (state l) = store l' (state l')" using v by (simp add: same_view_def)
  note dd = deterministicD [OF d eq c c']
  show ?thesis
    unfolding loop_body_eq [where step = step and lastp = lastp and ls = l, OF c]
      loop_body_eq [where step = step and lastp = lastp and ls = l', OF c']
    using dd v by (auto simp: same_view_def split: sum.splits)
qed

lemma run_loop_sim:
  assumes d: "deterministic step"
  shows "same_view l l' \<Longrightarrow>
         rel_sum (=) same_view
           (run_loop tk self B V ae step n l) (run_loop tk self B V ae step n l')"
proof (induction n arbitrary: l l')
  case 0
  then show ?case by simp
next
  case (Suc n)
  have p: "predictions l = predictions l'" and t: "trace l = trace l'"
    using Suc.prems by (simp_all add: same_view_def)
  show ?case
  proof (cases "last_predictions_of B (nat (beam_size self)) (predictions l')")
    case (Inl e)
    then show ?thesis by (simp add: p t)
  next
    case (Inr lastp)
    show ?thesis
    proof (cases "list_all (\<lambda>tok. tok = end_index self) lastp")
      case True
      then show ?thesis using Inr Suc.prems by (simp add: p)
    next
      case False
      note lb = loop_body_sim [OF d Suc.prems, of tk self B V ae lastp]
      show ?thesis
      proof (cases "loop_body tk self B V ae step l lastp")
        case (Inl x)
        then show ?thesis using lb Inr False
          by (cases "loop_body tk self B V ae step l' lastp") (simp_all add: p)
      next
        case (Inr m)
        then obtain m' where m': "loop_body tk self B V ae step l' lastp = Inr m'"
          and v: "same_view m m'"
          using lb by (cases "loop_body tk self B V ae step l' lastp") simp_all
        show ?thesis
          using Suc.IH [OF v] Inr m' False
            \<open>last_predictions_of B (nat (beam_size self)) (predictions l') = Inr lastp\<close>
          by (simp add: p)
      qed
    qed
  qed
qed

text \<open>
  Claim C9. With deterministic scoring functions and one selector (a fixed
  rule for equal values), two invocations of \<open>search\<close> with the same
  configuration, the same start predictions and start states with the same
  items return the same predictions and log-probabilities, or raise the same
  exception, whatever else the two stores hold.
\<close>

theorem search_deterministic:
  assumes d: "deterministic step"
    and d1: "case first_step of None \<Rightarrow> True | Some g \<Rightarrow> deterministic g"
    and eq: "h start_state = h' start_state'"
  shows "result_of (search tk self start_predictions start_state step first_step h) =
         result_of (search tk self start_predictions start_state' step first_step h')"
proof -
  let ?i = "initialise tk self start_predictions start_state step first_step h"
  let ?i' = "initialise tk self start_predictions start_state' step first_step h'"
  have df: "case first_step of None \<Rightarrow> deterministic step | Some g \<Rightarrow> deterministic g"
    using d d1 by (cases first_step) auto
  note isim = initialise_sim [where h = h and a = start_state and h' = h' and a' = start_state'
      and tk = tk and self = self and sp = start_predictions, OF df eq]
  show ?thesis
  proof (cases ?i)
    case (Inl x)
    then have "?i' = Inl x" using isim by (cases ?i') simp_all
    then show ?thesis using Inl by (simp add: search_def)
  next
    case (Inr r)
    obtain V ae l where r: "r = (V, ae, l)" by (cases r) auto
    obtain l' where i': "?i' = Inr (V, ae, l')" and v: "same_view l l'"
      using isim Inr r by (cases ?i') auto
    let ?n = "nat (max_steps self - 1)"
    let ?r = "run_loop tk self (length start_predictions) V ae step ?n l"
    let ?r' = "run_loop tk self (length start_predictions) V ae step ?n l'"
    note rs = run_loop_sim [OF d v, of tk self "length start_predictions" V ae ?n]
    show ?thesis
    proof (cases ?r)
      case (Inl x)
      then have "?r' = Inl x" using rs by (cases ?r') simp_all
      then show ?thesis using Inl Inr r i' by (simp add: search_def)
    next
      case run: (Inr m)
      then obtain m' where run': "?r' = Inr m'" and w: "same_view m m'"
        using rs by (cases ?r') simp_all
      show ?thesis
        unfolding search_eq [OF Inr [unfolded r] run] search_eq [OF i' run']
        using w by (auto simp: same_view_def result_of_def split: sum.splits)
    qed
  qed
qed

lemma ex_deterministic: "deterministic ex_step"
  by (simp add: deterministic_def ex_step_def)

theorem search_deterministic_witness:
  "deterministic ex_step \<and>
   (case None :: nat step_function option of None \<Rightarrow> True | Some g \<Rightarrow> deterministic g) \<and>
   ex_store 0 = other_store 3 \<and>
   result_of (search topk ex_self [7] 0 ex_step None ex_store) =
     Inr ([[[0, 0], [1, 0]]], [[Fin (- 1), Fin (- 3)]]) \<and>
   result_of (search topk ex_self [7] 3 ex_step None other_store) =
     Inr ([[[0, 0], [1, 0]]], [[Fin (- 1), Fin (- 3)]])"
proof -
  have n: "case None :: nat step_function option of None \<Rightarrow> True | Some g \<Rightarrow> deterministic g"
    by simp
  have e: "ex_store 0 = other_store 3" by (simp add: ex_store_def other_store_def)
  note w = search_deterministic [where tk = topk and self = ex_self and start_predictions = "[7]"
      and h = ex_store and start_state = 0 and h' = other_store and start_state' = 3
      and first_step = None, OF ex_deterministic n e]
  have r: "result_of (search topk ex_self [7] 0 ex_step None ex_store) =
     Inr ([[[0, 0], [1, 0]]], [[Fin (- 1), Fin (- 3)]])"
    unfolding ex_search by (simp add: result_of_def)
  have r': "result_of (search topk ex_self [7] 3 ex_step None other_store) =
     Inr ([[[0, 0], [1, 0]]], [[Fin (- 1), Fin (- 3)]])"
    using w r by simp
  show ?thesis by (intro conjI ex_deterministic n e r r')
qed

section \<open>Stopping early after a later step\<close>

lemma gather_succeeds:
  assumes "length index \<le> length input"
    and "\<And>b k. b < length index \<Longrightarrow> k < length (index ! b) \<Longrightarrow> index ! b ! k < length (input ! b)"
  shows "gather input index = Inr (pick input index)"
proof -
  have "list_all (\<lambda>(row, is). list_all (\<lambda>j. j < length row) is) (zip input index)"
    using assms by (auto simp: list_all_length)
  then show ?thesis using assms(1) by (simp add: gather_def)
qed

lemma shape_replicateD:
  assumes "map length xs = replicate B beam"
  shows "length xs = B" and "b < B \<Longrightarrow> length (xs ! b) = beam"
proof -
  show l: "length xs = B" using assms by (metis length_map length_replicate)
  show "b < B \<Longrightarrow> length (xs ! b) = beam"
    using assms l by (metis nth_map nth_replicate)
qed

lemma walk_back_succeeds:
  assumes p: "\<And>t. t < length preds \<Longrightarrow> map length (preds ! t) = replicate B beam"
    and q: "\<And>t. t < length bps \<Longrightarrow> map length (bps ! t) = replicate B beam"
    and qr: "\<And>t b k. t < length bps \<Longrightarrow> b < B \<Longrightarrow> k < beam \<Longrightarrow> bps ! t ! b ! k < beam"
  shows "Suc n < length preds \<or> n = 0 \<Longrightarrow> n \<le> length bps \<Longrightarrow>
         map length cur = replicate B beam \<Longrightarrow>
         (\<And>b k. b < B \<Longrightarrow> k < beam \<Longrightarrow> cur ! b ! k < beam) \<Longrightarrow>
         \<exists>rec' cur'. walk_back preds bps n rec cur = Inr (rec', cur') \<and>
            (\<forall>b<B. \<forall>k<beam. cur' ! b ! k < beam)"
proof (induction n arbitrary: rec cur)
  case 0
  then show ?case by simp
next
  case (Suc n)
  have n: "Suc n < length preds" "n < length bps" using Suc.prems(1,2) by simp_all
  note sc = shape_replicateD [OF Suc.prems(3)]
  note sp = shape_replicateD [OF p [OF n(1)]]
  note sq = shape_replicateD [OF q [OF n(2)]]
  have g1: "gather (preds ! Suc n) cur = Inr (pick (preds ! Suc n) cur)"
    using sc sp Suc.prems(4) by (intro gather_succeeds) simp_all
  have g2: "gather (bps ! n) cur = Inr (pick (bps ! n) cur)"
    using sc sq Suc.prems(4) by (intro gather_succeeds) simp_all
  let ?c1 = "pick (bps ! n) cur"
  have s1: "map length ?c1 = replicate B beam"
    using pick_shape [of cur "bps ! n"] sc(1) sq(1) Suc.prems(3) by simp
  have r1: "?c1 ! b ! k < beam" if "b < B" "k < beam" for b k
    using that sc sq qr [OF n(2) that(1), of "cur ! b ! k"] Suc.prems(4) [OF that]
    by (simp add: pick_nth)
  have "Suc n < length preds \<or> n = 0" "n \<le> length bps" using n by simp_all
  from Suc.IH [OF this s1 r1, of "rec @ [pick (preds ! Suc n) cur]"]
  show ?case using n g1 g2 by simp
qed

lemma reconstruct_succeeds:
  assumes len: "length preds = Suc (length bps)" and ne: "bps \<noteq> []"
    and p: "\<And>t. t < length preds \<Longrightarrow> map length (preds ! t) = replicate B beam"
    and q: "\<And>t. t < length bps \<Longrightarrow> map length (bps ! t) = replicate B beam"
    and qr: "\<And>t b k. t < length bps \<Longrightarrow> b < B \<Longrightarrow> k < beam \<Longrightarrow> bps ! t ! b ! k < beam"
  shows "\<exists>out. reconstruct preds bps = Inr out"
proof -
  obtain n where n: "length bps = Suc n" using ne by (cases bps) auto
  have T: "length preds - 2 = n" "length preds = Suc (Suc n)" using len n by simp_all
  have pne: "preds \<noteq> []" using len by auto
  have cur0: "last bps = bps ! n" using ne n by (simp add: last_conv_nth)
  have lastp: "last preds = preds ! Suc n" using pne T by (simp add: last_conv_nth)
  have s0: "map length (last bps) = replicate B beam" unfolding cur0 using q n by simp
  have r0: "last bps ! b ! k < beam" if "b < B" "k < beam" for b k
    unfolding cur0 using qr that n by simp
  have "Suc n < length preds \<or> n = 0" "n \<le> length bps" using T n by simp_all
  from walk_back_succeeds [OF p q qr this s0 r0, of "[last preds]"]
  obtain rec' cur' where
    w: "walk_back preds bps n [last preds] (last bps) = Inr (rec', cur')"
    and r': "\<forall>b<B. \<forall>k<beam. cur' ! b ! k < beam"
    by blast
  note ww = walk_back_Inr [OF w]
  have s': "map length cur' = replicate B beam" using ww s0 by simp
  note sc = shape_replicateD [OF s']
  have p0: "map length (preds ! 0) = replicate B beam" using p T by simp
  note sp = shape_replicateD [OF p0]
  let ?final = "pick (preds ! 0) cur'"
  have g: "gather (preds ! 0) cur' = Inr ?final"
    using sc sp r' by (intro gather_succeeds) simp_all
  have sf: "map length ?final = replicate B beam"
    using pick_shape [of cur' "preds ! 0"] sc(1) sp(1) s' by simp
  have "map length m = replicate B beam" if "m \<in> set rec'" for m
  proof -
    from that obtain j where j: "j < length rec'" "m = rec' ! j" by (metis in_set_conv_nth)
    show ?thesis
    proof (cases j)
      case 0
      then have "m = last preds" using ww j by simp
      then show ?thesis using p [of "Suc n"] lastp T by simp
    next
      case (Suc i)
      then have "i < n" using j ww by simp
      then show ?thesis using ww j Suc s0 by simp
    qed
  qed
  then have "list_all (\<lambda>m'. map length m' = map length ?final) (?final # rev rec')"
    using sf by (simp add: list_all_iff)
  then have "\<exists>out. cat2 (?final # rev rec') = Inr out"
    by (simp add: cat2_def)
  then show ?thesis
    using w g pne ne by (simp add: reconstruct_def T(1))
qed

lemma run_loop_stable:
  assumes lp: "last_predictions_of B (nat (beam_size self)) (predictions ls) = Inr lastp"
    and e: "list_all (\<lambda>tok. tok = end_index self) lastp"
  shows "run_loop tk self B V ae step n ls0 = Inr ls \<Longrightarrow>
         run_loop tk self B V ae step (n + j) ls0 = Inr ls"
proof (induction n arbitrary: ls0)
  case 0
  then show ?case using lp e by (cases j) simp_all
next
  case (Suc n)
  from Suc.prems obtain lastp0 where
    l0: "last_predictions_of B (nat (beam_size self)) (predictions ls0) = Inr lastp0"
    by (auto split: sum.splits)
  show ?case
  proof (cases "list_all (\<lambda>tok. tok = end_index self) lastp0")
    case True
    then show ?thesis using Suc.prems l0 by simp
  next
    case False
    with Suc.prems l0 obtain l' where
      lb: "loop_body tk self B V ae step ls0 lastp0 = Inr l'"
      and rest: "run_loop tk self B V ae step n l' = Inr ls"
      by (auto split: sum.splits)
    from Suc.IH [OF rest] show ?thesis using l0 False lb by simp
  qed
qed

text \<open>
  When every hypothesis has the end token after a step \<open>t \<ge> 1\<close>, the search
  makes no further scoring call (the trace ends with the call of step \<open>t\<close>)
  and returns sequences of length \<open>t + 1\<close>, at most \<open>max_steps\<close>.
\<close>

lemma early_stop_after_later_step_returns:
  assumes tk: "topk_spec tk"
    and i: "initialise tk self start_predictions start_state step first_step h = Inr (V, after_end, ls0)"
    and r: "run_loop tk self (length start_predictions) V after_end step t ls0 = Inr ls"
    and len: "length (predictions ls) = Suc t" and t: "1 \<le> t" "t \<le> nat (max_steps self - 1)"
    and lp: "last_predictions_of (length start_predictions) (nat (beam_size self)) (predictions ls)
               = Inr last_predictions"
    and e: "list_all (\<lambda>tok. tok = end_index self) last_predictions"
  shows "\<exists>out. search tk self start_predictions start_state step first_step h
                  = Inr ((out, last_log_probabilities ls), self, store ls, trace ls) \<and>
               length (trace ls) = Suc t \<and> int (Suc t) \<le> max_steps self \<and>
               (\<forall>b<length out. \<forall>k<length (out ! b). length (out ! b ! k) = Suc t)"
proof -
  let ?B = "length (last_log_probabilities ls)" and ?beam = "nat (beam_size self)"
  have inv: "beam_inv self V ls" using tk i r by (rule beam_inv_run)
  note iv = inv [unfolded beam_inv_def Let_def]
  have lens: "length (predictions ls) = Suc (length (backpointers ls))"
    "length (trace ls) = length (predictions ls)"
    using iv by simp_all
  have ne: "backpointers ls \<noteq> []" using lens len t by auto
  have p: "map length (predictions ls ! u) = replicate ?B ?beam" if "u < length (predictions ls)" for u
    using iv that by (auto simp: list_eq_iff_nth_eq)
  have q: "map length (backpointers ls ! u) = replicate ?B ?beam" if "u < length (backpointers ls)" for u
    using iv that by (auto simp: list_eq_iff_nth_eq)
  have qr: "backpointers ls ! u ! b ! k < ?beam"
    if "u < length (backpointers ls)" "b < ?B" "k < ?beam" for u b k
    using iv that by simp
  obtain out where rc: "reconstruct (predictions ls) (backpointers ls) = Inr out"
    using reconstruct_succeeds [OF lens(1) ne p q qr] by blast
  obtain j where j: "nat (max_steps self - 1) = t + j" using t(2) by (metis le_Suc_ex)
  have run: "run_loop tk self (length start_predictions) V after_end step
               (nat (max_steps self - 1)) ls0 = Inr ls"
    unfolding j using lp e r by (rule run_loop_stable)
  have s: "search tk self start_predictions start_state step first_step h
             = Inr ((out, last_log_probabilities ls), self, store ls, trace ls)"
    unfolding search_eq [OF i run] rc by simp
  have "length (out ! b ! k) = Suc t" if "b < length out" "k < length (out ! b)" for b k
    using reconstruct_nth [OF rc lens(1) that, of 0] len by simp
  moreover have "int (Suc t) \<le> max_steps self" using t by linarith
  ultimately show ?thesis using s lens len by auto
qed

end
